theory Spec2Isabelle
  imports Main "HOL-Library.Sublist"
begin

text \<open>
  A model of \<open>appstore-ratings-extractor.py\<close>: the search of the marker pattern in the
  body of the product page, the decoding and the checks of the record behind it, the
  summary of three fields, and the run of the command line with its two output streams
  and its exit status. What the program takes from the interpreter and its libraries is
  modelled as far as the program reaches it: the regular expression, \<open>json.loads\<close> and
  \<open>json.dumps\<close> as functions on texts; the network, the command line parser, the
  floating point numbers and the encoding of standard output as inputs and parameters.
\<close>

section \<open>Text\<close>

text \<open>
  A Python \<open>str\<close> is a sequence of Unicode code points. Code points are natural numbers
  here, so that the \<open>\uXXXX\<close> escapes of JSON and the two non-ASCII characters of the
  shape error message are what they are in the interpreter. \<open>str\<close> turns an ASCII
  literal into such a sequence.
\<close>

type_synonym pystr = "nat list"

definition str :: "string \<Rightarrow> pystr" where
  "str s = map of_char s"

text \<open>\<open>sep.join(xs)\<close>.\<close>

fun join :: "pystr \<Rightarrow> pystr list \<Rightarrow> pystr" where
  "join sep [] = []"
| "join sep [x] = x"
| "join sep (x # y # ys) = x @ sep @ join sep (y # ys)"

text \<open>Decimal text of an integer, as \<open>int.__repr__\<close> and an f-string write it.\<close>

fun digits :: "nat \<Rightarrow> pystr" where
  "digits n = (if n < 10 then [48 + n] else digits (n div 10) @ [48 + n mod 10])"

declare digits.simps [simp del]

definition int_repr :: "int \<Rightarrow> pystr" where
  "int_repr i = (if i < 0 then 45 # digits (nat (- i)) else digits (nat i))"

section \<open>The marker pattern\<close>

text \<open>
  \<open>PRODUCT_RATINGS_PATTERN\<close> is the regular expression
  \<^verbatim>\<open>"contentType":"productRatings","marker":null,"items":\[(\{.*?\})\]\<close>
  compiled with \<open>re.DOTALL\<close>: a literal text, an opening bracket, and one group that
  starts with an opening brace, goes on lazily over any characters (line breaks too) and
  stops at the first closing brace that is followed by a closing bracket.
\<close>

definition PATTERN_literal :: pystr where
  \<open>PATTERN_literal = str ''"contentType":"productRatings","marker":null,"items":[''\<close>

text \<open>
  \<open>lazy_dotall s\<close> is what \<^verbatim>\<open>.*?\<close> consumes at the start of \<open>s\<close> when the rest of the
  pattern is \<^verbatim>\<open>\}\]\<close>: the backtracking matcher tries zero characters first and one more
  after every failure, so it is the text before the first \<^verbatim>\<open>}]\<close>.
\<close>

fun lazy_dotall :: "pystr \<Rightarrow> pystr option" where
  "lazy_dotall [] = None"
| "lazy_dotall (c # cs) =
     (if prefix (str ''}]'') (c # cs) then Some []
      else map_option (Cons c) (lazy_dotall cs))"

text \<open>The pattern tried at the start of \<open>s\<close>; the result is group 1.\<close>

definition match_at :: "pystr \<Rightarrow> pystr option" where
  "match_at s =
     (if prefix (PATTERN_literal @ str ''{'') s then
        (case lazy_dotall (drop (length PATTERN_literal + 1) s) of
           None \<Rightarrow> None
         | Some x \<Rightarrow> Some (str ''{'' @ x @ str ''}''))
      else None)"

text \<open>\<open>PATTERN.search(text)\<close>: the start positions are tried from left to right.\<close>

fun PATTERN_search :: "pystr \<Rightarrow> pystr option" where
  "PATTERN_search [] = match_at []"
| "PATTERN_search (c # cs) =
     (case match_at (c # cs) of
        Some g \<Rightarrow> Some g
      | None \<Rightarrow> PATTERN_search cs)"

section \<open>JSON values and the interpreter's library\<close>

text \<open>
  What \<open>json.loads\<close> returns: \<open>None\<close>, a \<open>bool\<close>, an \<open>int\<close> (unbounded), a
  \<open>float\<close>, a \<open>str\<close>, a \<open>list\<close> or a \<open>dict\<close> with \<open>str\<close> keys. A \<open>dict\<close> is an
  association list in insertion order with distinct keys.

  The interpreter's binary floating point is not modelled: the type of floats is a
  parameter \<open>'f\<close>, and the two operations of the interpreter that the program reaches
  are fields of \<open>pylib\<close>: \<open>float_of\<close> is \<open>float(text)\<close> and \<open>float_repr\<close> is
  \<open>float.__repr__\<close>. The third field is the text of the \<open>JSONDecodeError\<close> that
  \<open>json.loads\<close> raises for a document, which differs between interpreter versions.

  The last two fields belong to the standard streams of the process. \<open>stdout_encodes\<close>
  says which characters beyond ASCII the encoding of standard output, with its error
  handler, has bytes for: under UTF-8 every character but the surrogates, under ASCII
  none. \<open>traceback_tail\<close> is what the interpreter writes after the first line of the
  traceback when the \<open>UnicodeEncodeError\<close> for a text is not caught: the frames, which
  name the installed script, and the line of the exception.
\<close>

datatype 'f json =
    JNull
  | JBool bool
  | JInt int
  | JFloat 'f
  | JString pystr
  | JArray "'f json list"
  | JObject "(pystr \<times> 'f json) list"

record 'f pylib =
  float_of :: "pystr \<Rightarrow> 'f"
  float_repr :: "'f \<Rightarrow> pystr"
  decode_error_str :: "pystr \<Rightarrow> pystr"
  stdout_encodes :: "nat \<Rightarrow> bool"
  traceback_tail :: "pystr \<Rightarrow> pystr"

text \<open>\<open>d[k] = v\<close> on a \<open>dict\<close>: a key that is present keeps its place.\<close>

fun dict_set :: "(pystr \<times> 'v) list \<Rightarrow> pystr \<Rightarrow> 'v \<Rightarrow> (pystr \<times> 'v) list" where
  "dict_set [] k v = [(k, v)]"
| "dict_set ((k', v') # d) k v =
     (if k' = k then (k', v) # d else (k', v') # dict_set d k v)"

definition dict_of_pairs :: "(pystr \<times> 'v) list \<Rightarrow> (pystr \<times> 'v) list" where
  "dict_of_pairs kvs = foldl (\<lambda>d (k, v). dict_set d k v) [] kvs"

definition dict_get :: "(pystr \<times> 'v) list \<Rightarrow> pystr \<Rightarrow> 'v option" where
  "dict_get d k = map_of d k"

section \<open>json.loads\<close>

text \<open>
  The decoder of the interpreter (its C scanner, which is the default), in strict mode
  and without hooks. Every \<open>JSONDecodeError\<close> is the one value \<open>Invalid\<close>. The
  recursion of the scanner is bounded by fuel; \<open>Exhausted\<close> is the result of running out
  of it, which \<open>json_loads\<close> never does (\<open>json_loads_not_Exhausted\<close> below). The limits
  of the interpreter (recursion depth, the digit limit of \<open>int\<close>, memory) are not part of
  this model.
\<close>

datatype scan_error = Invalid | Exhausted

definition is_ws :: "nat \<Rightarrow> bool" where
  "is_ws c = (c = 32 \<or> c = 9 \<or> c = 10 \<or> c = 13)"

definition skip_ws :: "pystr \<Rightarrow> pystr" where
  "skip_ws s = dropWhile is_ws s"

definition is_digit :: "nat \<Rightarrow> bool" where
  "is_digit c = (48 \<le> c \<and> c \<le> 57)"

definition hex_val :: "nat \<Rightarrow> nat option" where
  "hex_val c =
     (if 48 \<le> c \<and> c \<le> 57 then Some (c - 48)
      else if 97 \<le> c \<and> c \<le> 102 then Some (c - 87)
      else if 65 \<le> c \<and> c \<le> 70 then Some (c - 55)
      else None)"

fun hex4 :: "pystr \<Rightarrow> nat option" where
  "hex4 (a # b # c # d # _) =
     (case (hex_val a, hex_val b, hex_val c, hex_val d) of
        (Some w, Some x, Some y, Some z) \<Rightarrow> Some (((w * 16 + x) * 16 + y) * 16 + z)
      | _ \<Rightarrow> None)"
| "hex4 _ = None"

definition unescape :: "nat \<Rightarrow> nat option" where
  "unescape e =
     (if e = 34 then Some 34
      else if e = 92 then Some 92
      else if e = 47 then Some 47
      else if e = 98 then Some 8
      else if e = 102 then Some 12
      else if e = 110 then Some 10
      else if e = 114 then Some 13
      else if e = 116 then Some 9
      else None)"

definition join_surrogates :: "nat \<Rightarrow> nat \<Rightarrow> nat" where
  "join_surrogates hi lo = 0x10000 + ((hi - 0xD800) * 0x400 + (lo - 0xDC00))"

definition cons_result :: "nat \<Rightarrow> (pystr \<times> pystr) option \<Rightarrow> (pystr \<times> pystr) option" where
  "cons_result c r = (case r of None \<Rightarrow> None | Some (x, rest) \<Rightarrow> Some (c # x, rest))"

text \<open>
  \<open>scanstring\<close> reads a string after its opening quote and returns its content and the
  text after the closing quote. A high surrogate escape takes a low surrogate escape
  that follows it; a control character is an error.
\<close>

fun scanstring :: "pystr \<Rightarrow> (pystr \<times> pystr) option" where
  "scanstring [] = None"
| "scanstring (c # cs) =
     (if c = 34 then Some ([], cs)
      else if c = 92 then
        (case cs of
           [] \<Rightarrow> None
         | e # es \<Rightarrow>
             if e = 117 then
               (case hex4 es of
                  None \<Rightarrow> None
                | Some u \<Rightarrow>
                    if 0xD800 \<le> u \<and> u \<le> 0xDBFF \<and> 6 < length (drop 4 es)
                       \<and> take 2 (drop 4 es) = [92, 117] then
                      (case hex4 (drop 6 es) of
                         None \<Rightarrow> None
                       | Some u2 \<Rightarrow>
                           if 0xDC00 \<le> u2 \<and> u2 \<le> 0xDFFF
                           then cons_result (join_surrogates u u2) (scanstring (drop 10 es))
                           else cons_result u (scanstring (drop 4 es)))
                    else cons_result u (scanstring (drop 4 es)))
             else
               (case unescape e of
                  None \<Rightarrow> None
                | Some ch \<Rightarrow> cons_result ch (scanstring es)))
      else if c < 32 then None
      else cons_result c (scanstring cs))"

text \<open>
  The number at the start of the text, as the scanner matches it: an optional minus, an
  integer part without a leading zero, an optional fraction, an optional exponent. The
  result is the matched text, whether it has a fraction or an exponent, and the rest.
\<close>

definition match_sign :: "pystr \<Rightarrow> pystr \<times> pystr" where
  "match_sign s = (case s of [] \<Rightarrow> ([], s) | c # cs \<Rightarrow> if c = 45 then ([c], cs) else ([], s))"

definition match_int :: "pystr \<Rightarrow> (pystr \<times> pystr) option" where
  "match_int s =
     (case s of
        [] \<Rightarrow> None
      | d # ds \<Rightarrow>
          if \<not> is_digit d then None
          else if d = 48 then Some ([d], ds)
          else Some (d # takeWhile is_digit ds, dropWhile is_digit ds))"

definition match_frac :: "pystr \<Rightarrow> pystr \<times> pystr" where
  "match_frac s =
     (case s of
        p # q # qs \<Rightarrow>
          if p = 46 \<and> is_digit q
          then (p # q # takeWhile is_digit qs, dropWhile is_digit qs)
          else ([], s)
      | _ \<Rightarrow> ([], s))"

text \<open>An exponent without a digit is not an exponent: the scanner goes back before it.\<close>

definition match_exp :: "pystr \<Rightarrow> pystr \<times> pystr" where
  "match_exp s =
     (case s of
        [] \<Rightarrow> ([], s)
      | e # es \<Rightarrow>
          if e = 101 \<or> e = 69 then
            (let (sg, es1) = (case es of
                                [] \<Rightarrow> ([], es)
                              | g # gs \<Rightarrow> if g = 43 \<or> g = 45 then ([g], gs) else ([], es))
             in if takeWhile is_digit es1 = [] then ([], s)
                else (e # sg @ takeWhile is_digit es1, dropWhile is_digit es1))
          else ([], s))"

definition match_number :: "pystr \<Rightarrow> (pystr \<times> bool \<times> pystr) option" where
  "match_number s =
     (let (sign, s1) = match_sign s
      in case match_int s1 of
           None \<Rightarrow> None
         | Some (ip, s2) \<Rightarrow>
             let (fp, s3) = match_frac s2;
                 (ep, s4) = match_exp s3
             in Some (sign @ ip @ fp @ ep, fp \<noteq> [] \<or> ep \<noteq> [], s4))"

definition digits_value :: "pystr \<Rightarrow> nat" where
  "digits_value s = foldl (\<lambda>a c. 10 * a + (c - 48)) 0 s"

text \<open>\<open>int(text)\<close> on the text of an integer literal.\<close>

definition int_of_literal :: "pystr \<Rightarrow> int" where
  "int_of_literal s =
     (case s of
        [] \<Rightarrow> 0
      | c # cs \<Rightarrow> if c = 45 then - int (digits_value cs) else int (digits_value s))"

text \<open>
  The three constants, the three floats that are not finite, and the numbers: a number
  with a fraction or an exponent is a \<open>float\<close>, any other an \<open>int\<close>.
\<close>

definition scan_literal :: "'f pylib \<Rightarrow> pystr \<Rightarrow> scan_error + ('f json \<times> pystr)" where
  "scan_literal L s =
     (if prefix (str ''null'') s then Inr (JNull, drop 4 s)
      else if prefix (str ''true'') s then Inr (JBool True, drop 4 s)
      else if prefix (str ''false'') s then Inr (JBool False, drop 5 s)
      else if prefix (str ''NaN'') s then Inr (JFloat (float_of L (str ''nan'')), drop 3 s)
      else if prefix (str ''Infinity'') s then Inr (JFloat (float_of L (str ''inf'')), drop 8 s)
      else if prefix (str ''-Infinity'') s then Inr (JFloat (float_of L (str ''-inf'')), drop 9 s)
      else
        (case match_number s of
           None \<Rightarrow> Inl Invalid
         | Some (lit, is_float, r) \<Rightarrow>
             if is_float then Inr (JFloat (float_of L lit), r)
             else Inr (JInt (int_of_literal lit), r)))"

text \<open>
  \<open>scan_once\<close> reads one value; \<open>parse_array\<close> reads the elements of a list after the
  opening bracket and the white space behind it, \<open>parse_object\<close> the members of an object
  likewise. The pairs of an object become a \<open>dict\<close>: of two members with one key the
  later value stays.
\<close>

fun scan_once :: "'f pylib \<Rightarrow> nat \<Rightarrow> pystr \<Rightarrow> scan_error + ('f json \<times> pystr)"
  and parse_array :: "'f pylib \<Rightarrow> nat \<Rightarrow> pystr \<Rightarrow> scan_error + ('f json list \<times> pystr)"
  and parse_object :: "'f pylib \<Rightarrow> nat \<Rightarrow> pystr \<Rightarrow> scan_error + ((pystr \<times> 'f json) list \<times> pystr)"
where
  "scan_once L 0 s = Inl Exhausted"
| "scan_once L (Suc n) s =
     (case s of
        [] \<Rightarrow> Inl Invalid
      | c # cs \<Rightarrow>
          if c = 34 then
            (case scanstring cs of
               None \<Rightarrow> Inl Invalid
             | Some (x, r) \<Rightarrow> Inr (JString x, r))
          else if c = 123 then
            (case skip_ws cs of
               [] \<Rightarrow> Inl Invalid
             | d # ds \<Rightarrow>
                 if d = 125 then Inr (JObject [], ds)
                 else (case parse_object L n (d # ds) of
                         Inl e \<Rightarrow> Inl e
                       | Inr (kvs, r) \<Rightarrow> Inr (JObject (dict_of_pairs kvs), r)))
          else if c = 91 then
            (case skip_ws cs of
               [] \<Rightarrow> Inl Invalid
             | d # ds \<Rightarrow>
                 if d = 93 then Inr (JArray [], ds)
                 else (case parse_array L n (d # ds) of
                         Inl e \<Rightarrow> Inl e
                       | Inr (vs, r) \<Rightarrow> Inr (JArray vs, r)))
          else scan_literal L s)"
| "parse_array L 0 s = Inl Exhausted"
| "parse_array L (Suc n) s =
     (case scan_once L n s of
        Inl e \<Rightarrow> Inl e
      | Inr (v, r) \<Rightarrow>
          (case skip_ws r of
             [] \<Rightarrow> Inl Invalid
           | d # ds \<Rightarrow>
               if d = 93 then Inr ([v], ds)
               else if d = 44 then
                 (case parse_array L n (skip_ws ds) of
                    Inl e \<Rightarrow> Inl e
                  | Inr (vs, r') \<Rightarrow> Inr (v # vs, r'))
               else Inl Invalid))"
| "parse_object L 0 s = Inl Exhausted"
| "parse_object L (Suc n) s =
     (case s of
        [] \<Rightarrow> Inl Invalid
      | c # cs \<Rightarrow>
          if c \<noteq> 34 then Inl Invalid
          else
            (case scanstring cs of
               None \<Rightarrow> Inl Invalid
             | Some (k, r) \<Rightarrow>
                 (case skip_ws r of
                    [] \<Rightarrow> Inl Invalid
                  | d # ds \<Rightarrow>
                      if d \<noteq> 58 then Inl Invalid
                      else
                        (case scan_once L n (skip_ws ds) of
                           Inl e \<Rightarrow> Inl e
                         | Inr (v, r2) \<Rightarrow>
                             (case skip_ws r2 of
                                [] \<Rightarrow> Inl Invalid
                              | x # xs \<Rightarrow>
                                  if x = 125 then Inr ([(k, v)], xs)
                                  else if x = 44 then
                                    (case parse_object L n (skip_ws xs) of
                                       Inl e \<Rightarrow> Inl e
                                     | Inr (kvs, r3) \<Rightarrow> Inr ((k, v) # kvs, r3))
                                  else Inl Invalid)))))"

text \<open>
  \<open>json.loads(s)\<close> on a \<open>str\<close>: a byte order mark is refused, white space around the
  value is allowed, anything else after it is an error.
\<close>

definition json_loads :: "'f pylib \<Rightarrow> pystr \<Rightarrow> scan_error + 'f json" where
  "json_loads L s =
     (if take 1 s = [0xFEFF] then Inl Invalid
      else
        (case scan_once L (Suc (2 * length s)) (skip_ws s) of
           Inl e \<Rightarrow> Inl e
         | Inr (v, r) \<Rightarrow> if skip_ws r = [] then Inr v else Inl Invalid))"

section \<open>json.dumps\<close>

text \<open>
  \<open>json.dumps(o, ensure_ascii=False, indent=ind)\<close> with the default separators: without
  indentation the items are separated by a comma and a space, with indentation by a comma
  and a line break followed by the indentation of the level; a key is followed by a colon
  and a space in both. With \<open>ensure_ascii=False\<close> only the quote, the backslash and the
  control characters are escaped.
\<close>

definition hex_digit :: "nat \<Rightarrow> nat" where
  "hex_digit d = (if d < 10 then 48 + d else 87 + d)"

definition escape_char :: "nat \<Rightarrow> pystr" where
  "escape_char c =
     (if c = 34 then [92, 34]
      else if c = 92 then [92, 92]
      else if c = 10 then [92, 110]
      else if c = 13 then [92, 114]
      else if c = 9 then [92, 116]
      else if c = 8 then [92, 98]
      else if c = 12 then [92, 102]
      else if c < 32 then [92, 117, 48, 48, hex_digit (c div 16), hex_digit (c mod 16)]
      else [c])"

definition encode_basestring :: "pystr \<Rightarrow> pystr" where
  "encode_basestring s = [34] @ concat (map escape_char s) @ [34]"

text \<open>
  The encoder writes \<open>NaN\<close>, \<open>Infinity\<close> and \<open>-Infinity\<close> for the three floats that are
  not finite, which are those that \<open>float.__repr__\<close> writes \<open>nan\<close>, \<open>inf\<close> and \<open>-inf\<close>,
  and the \<open>repr\<close> of every other float.
\<close>

definition floatstr :: "'f pylib \<Rightarrow> 'f \<Rightarrow> pystr" where
  "floatstr L x =
     (let r = float_repr L x
      in if r = str ''nan'' then str ''NaN''
         else if r = str ''inf'' then str ''Infinity''
         else if r = str ''-inf'' then str ''-Infinity''
         else r)"

definition newline_indent :: "nat \<Rightarrow> nat \<Rightarrow> pystr" where
  "newline_indent n level = 10 # replicate (n * level) 32"

definition open_indent :: "nat option \<Rightarrow> nat \<Rightarrow> pystr" where
  "open_indent ind level = (case ind of None \<Rightarrow> [] | Some n \<Rightarrow> newline_indent n (level + 1))"

definition close_indent :: "nat option \<Rightarrow> nat \<Rightarrow> pystr" where
  "close_indent ind level = (case ind of None \<Rightarrow> [] | Some n \<Rightarrow> newline_indent n level)"

definition separator :: "nat option \<Rightarrow> nat \<Rightarrow> pystr" where
  "separator ind level =
     (case ind of None \<Rightarrow> str '', '' | Some n \<Rightarrow> str '','' @ newline_indent n (level + 1))"

text \<open>\<open>level\<close> is the nesting depth of the value that is written.\<close>

fun iterencode :: "'f pylib \<Rightarrow> nat option \<Rightarrow> nat \<Rightarrow> 'f json \<Rightarrow> pystr"
  and iterencode_list :: "'f pylib \<Rightarrow> nat option \<Rightarrow> nat \<Rightarrow> 'f json list \<Rightarrow> pystr"
  and iterencode_dict :: "'f pylib \<Rightarrow> nat option \<Rightarrow> nat \<Rightarrow> (pystr \<times> 'f json) list \<Rightarrow> pystr"
where
  "iterencode L ind level JNull = str ''null''"
| "iterencode L ind level (JBool b) = (if b then str ''true'' else str ''false'')"
| "iterencode L ind level (JInt i) = int_repr i"
| "iterencode L ind level (JFloat x) = floatstr L x"
| "iterencode L ind level (JString s) = encode_basestring s"
| "iterencode L ind level (JArray vs) =
     (if vs = [] then str ''[]''
      else str ''['' @ open_indent ind level @ iterencode_list L ind level vs
           @ close_indent ind level @ str '']'')"
| "iterencode L ind level (JObject kvs) =
     (if kvs = [] then str ''{}''
      else str ''{'' @ open_indent ind level @ iterencode_dict L ind level kvs
           @ close_indent ind level @ str ''}'')"
| "iterencode_list L ind level [] = []"
| "iterencode_list L ind level (v # vs) =
     iterencode L ind (level + 1) v
     @ (if vs = [] then [] else separator ind level @ iterencode_list L ind level vs)"
| "iterencode_dict L ind level [] = []"
| "iterencode_dict L ind level ((k, v) # kvs) =
     encode_basestring k @ str '': '' @ iterencode L ind (level + 1) v
     @ (if kvs = [] then [] else separator ind level @ iterencode_dict L ind level kvs)"

definition json_dumps :: "'f pylib \<Rightarrow> nat option \<Rightarrow> 'f json \<Rightarrow> pystr" where
  "json_dumps L ind v = iterencode L ind 0 v"

section \<open>The program\<close>

text \<open>
  An exception is its class and the text that \<open>str(exc)\<close> gives. The program raises
  \<open>RuntimeError\<close> only; the other three are what the interpreter raises when a value
  is subscripted that is not of the expected type.
\<close>

datatype pyexc =
    RuntimeError pystr
  | IndexError pystr
  | KeyError pystr
  | TypeError pystr

fun exc_str :: "pyexc \<Rightarrow> pystr" where
  "exc_str (RuntimeError m) = m"
| "exc_str (IndexError m) = m"
| "exc_str (KeyError m) = m"
| "exc_str (TypeError m) = m"

text \<open>
  What \<open>requests.get\<close> does for a URL: it raises a \<open>RequestException\<close> with a text, or
  it returns a response with a status code and a body. \<open>raise_for_status\<close> of the
  \<open>requests\<close> library raises \<open>HTTPError\<close> for the status codes from 400 to 599 and
  returns for every other one.
\<close>

datatype http_result =
    RequestException pystr
  | Response int pystr

definition raises_for_status :: "int \<Rightarrow> bool" where
  "raises_for_status code = (400 \<le> code \<and> code < 600)"

definition REQUIRED_KEYS :: "pystr list" where
  "REQUIRED_KEYS = [str ''ratingAverage'', str ''totalNumberOfRatings'', str ''ratingCounts'']"

definition NOT_FOUND :: pyexc where
  "NOT_FOUND = RuntimeError (str ''productRatings block not found in HTML response'')"

text \<open>The two stars are U+2605 and the arrow is U+279D.\<close>

definition SHAPE_ERROR :: pyexc where
  "SHAPE_ERROR = RuntimeError
     (str ''ratingCounts must be a list of five integers (5'' @ [9733, 32, 10141, 32]
      @ str ''1'' @ [9733] @ str '')'')"

text \<open>\<open>x[0]\<close> on a decoded value.\<close>

fun subscript0 :: "'f json \<Rightarrow> pyexc + 'f json" where
  "subscript0 (JArray []) = Inl (IndexError (str ''list index out of range''))"
| "subscript0 (JArray (v # vs)) = Inr v"
| "subscript0 (JString []) = Inl (IndexError (str ''string index out of range''))"
| "subscript0 (JString (c # cs)) = Inr (JString [c])"
| "subscript0 (JObject d) = Inl (KeyError (str ''0''))"
| "subscript0 JNull = Inl (TypeError (39 # str ''NoneType'' @ 39 # str '' object is not subscriptable''))"
| "subscript0 (JBool b) = Inl (TypeError (39 # str ''bool'' @ 39 # str '' object is not subscriptable''))"
| "subscript0 (JInt i) = Inl (TypeError (39 # str ''int'' @ 39 # str '' object is not subscriptable''))"
| "subscript0 (JFloat x) = Inl (TypeError (39 # str ''float'' @ 39 # str '' object is not subscriptable''))"

text \<open>
  The checks of \<open>_extract_product_ratings\<close> on the decoded record. The record is a
  \<open>dict\<close> whenever the program gets here, because the captured text starts with an
  opening brace (\<open>loads_wrapped_is_dict\<close> below); the last case stands for the
  \<open>TypeError\<close> of the interpreter on any other value.
\<close>

definition validate :: "'f json \<Rightarrow> pyexc + (pystr \<times> 'f json) list" where
  "validate parsed =
     (case parsed of
        JObject d \<Rightarrow>
          (let missing_keys = filter (\<lambda>key. dict_get d key = None) REQUIRED_KEYS
           in if missing_keys \<noteq> [] then
                Inl (RuntimeError (str ''Missing expected keys in productRatings block: ''
                                   @ join (str '', '') missing_keys))
              else
                (case dict_get d (str ''ratingCounts'') of
                   None \<Rightarrow> Inl (KeyError (39 # str ''ratingCounts'' @ [39]))
                 | Some rating_counts \<Rightarrow>
                     (case rating_counts of
                        JArray xs \<Rightarrow> if length xs \<noteq> 5 then Inl SHAPE_ERROR else Inr d
                      | _ \<Rightarrow> Inl SHAPE_ERROR)))
      | _ \<Rightarrow> Inl (TypeError (str ''the decoded record is not a dict'')))"

definition extract_product_ratings :: "'f pylib \<Rightarrow> pystr \<Rightarrow> pyexc + (pystr \<times> 'f json) list" where
  "extract_product_ratings L text =
     (case PATTERN_search text of
        None \<Rightarrow> Inl NOT_FOUND
      | Some block \<Rightarrow>
          (case json_loads L (str ''['' @ block @ str '']'') of
             Inl e \<Rightarrow>
               Inl (RuntimeError (str ''Failed to decode productRatings JSON: ''
                                  @ decode_error_str L (str ''['' @ block @ str '']'')))
           | Inr doc \<Rightarrow>
               (case subscript0 doc of
                  Inl e \<Rightarrow> Inl e
                | Inr parsed \<Rightarrow> validate parsed)))"

definition product_url :: "pystr \<Rightarrow> pystr \<Rightarrow> pystr" where
  "product_url app_id country =
     str ''https://apps.apple.com/'' @ country @ str ''/app/id'' @ app_id"

text \<open>
  \<open>d[k]\<close> on a \<open>dict\<close>. The text of a \<open>KeyError\<close> is the \<open>repr\<close> of the key, which for
  the keys of this program is the key between single quotes.
\<close>

definition subscript :: "(pystr \<times> 'v) list \<Rightarrow> pystr \<Rightarrow> pyexc + 'v" where
  "subscript d k =
     (case dict_get d k of None \<Rightarrow> Inl (KeyError (39 # k @ [39])) | Some v \<Rightarrow> Inr v)"

text \<open>
  \<open>fetch_product_ratings\<close>; \<open>net\<close> is the network, the answer of \<open>requests.get\<close> for
  each URL. The result is the \<open>dict\<close> of the three fields.
\<close>

definition fetch_product_ratings ::
  "'f pylib \<Rightarrow> (pystr \<Rightarrow> http_result) \<Rightarrow> pystr \<Rightarrow> pystr \<Rightarrow> pyexc + (pystr \<times> 'f json) list" where
  "fetch_product_ratings L net app_id country =
     (case net (product_url app_id country) of
        RequestException t \<Rightarrow> Inl (RuntimeError (str ''Failed to fetch App Store page: '' @ t))
      | Response status_code text \<Rightarrow>
          if raises_for_status status_code then
            Inl (RuntimeError (str ''App Store page returned HTTP '' @ int_repr status_code))
          else
            (case extract_product_ratings L text of
               Inl e \<Rightarrow> Inl e
             | Inr data \<Rightarrow>
                 (case subscript data (str ''ratingAverage'') of
                    Inl e \<Rightarrow> Inl e
                  | Inr a \<Rightarrow>
                      (case subscript data (str ''totalNumberOfRatings'') of
                         Inl e \<Rightarrow> Inl e
                       | Inr t \<Rightarrow>
                           (case subscript data (str ''ratingCounts'') of
                              Inl e \<Rightarrow> Inl e
                            | Inr c \<Rightarrow>
                                Inr [(str ''ratingAverage'', a),
                                     (str ''totalNumberOfRatings'', t),
                                     (str ''ratingCounts'', c)])))))"

text \<open>
  \<open>parse_args\<close> hands the command line to \<open>argparse\<close>, which returns the namespace of
  the three arguments, or writes the help text to standard output and ends the process
  with status 0 (\<open>-h\<close>), or writes the usage and an error line to standard error and
  ends the process with status 2 (a command line it does not accept, such as one
  without \<open>app_id\<close>). Its result is an input of \<open>main\<close>.
\<close>

record args =
  app_id :: pystr
  country :: pystr
  pretty :: bool

datatype parse_result =
    Namespace args
  | HelpExit pystr
  | UsageError pystr

record run =
  stdout :: pystr
  stderr :: pystr
  exit_status :: int

text \<open>
  Standard output is a text stream: a \<open>write\<close> encodes the text that it is given, and
  when the text has a character that the encoding has no bytes for, it raises
  \<open>UnicodeEncodeError\<close> and writes nothing of that text. The encodings that the
  interpreter gives to standard output extend ASCII, so an ASCII character is always
  written; for every other character the library decides.
\<close>

definition encodes :: "'f pylib \<Rightarrow> pystr \<Rightarrow> bool" where
  "encodes L t = list_all (\<lambda>c. c < 128 \<or> stdout_encodes L c) t"

text \<open>
  \<open>print(text, end=ending)\<close> writes the text and then the ending, each with a \<open>write\<close>
  of its own. The result is what has been written, and the text whose \<open>write\<close> raised
  \<open>UnicodeEncodeError\<close> if one did.
\<close>

definition print_stdout :: "'f pylib \<Rightarrow> pystr \<Rightarrow> pystr \<Rightarrow> pystr \<times> pystr option" where
  "print_stdout L text ending =
     (if encodes L text then
        if encodes L ending then (text @ ending, None) else (text, Some ending)
      else ([], Some text))"

text \<open>
  An exception that leaves \<open>main\<close> ends the process with status 1, after the interpreter
  has written its traceback to standard error.
\<close>

definition uncaught :: "'f pylib \<Rightarrow> pystr \<Rightarrow> pystr" where
  "uncaught L t = str ''Traceback (most recent call last):'' @ [10] @ traceback_tail L t"

text \<open>
  \<open>main\<close>. The call of \<open>fetch_product_ratings\<close> is inside the \<open>try\<close>, whose handler
  writes the line of the error to standard error; standard error escapes what it cannot
  encode, so that this \<open>print\<close> does not raise. The \<open>print\<close> of the record to standard
  output comes after the \<open>try\<close>: what it raises is not caught.
\<close>

definition main :: "'f pylib \<Rightarrow> (pystr \<Rightarrow> http_result) \<Rightarrow> parse_result \<Rightarrow> run" where
  "main L net parsed_args =
     (case parsed_args of
        HelpExit help \<Rightarrow> \<lparr>stdout = help, stderr = [], exit_status = 0\<rparr>
      | UsageError usage \<Rightarrow> \<lparr>stdout = [], stderr = usage, exit_status = 2\<rparr>
      | Namespace a \<Rightarrow>
          (case fetch_product_ratings L net (app_id a) (country a) of
             Inl exc \<Rightarrow>
               \<lparr>stdout = [], stderr = str ''error: '' @ exc_str exc @ [10], exit_status = 1\<rparr>
           | Inr summary \<Rightarrow>
               (case print_stdout L
                       (json_dumps L (if pretty a then Some 2 else None) (JObject summary))
                       (if pretty a then [10] else []) of
                  (out, None) \<Rightarrow> \<lparr>stdout = out, stderr = [], exit_status = 0\<rparr>
                | (out, Some t) \<Rightarrow>
                    \<lparr>stdout = out, stderr = uncaught L t, exit_status = 1\<rparr>)))"

section \<open>Decoding what was encoded\<close>

text \<open>
  \<open>is_float_repr\<close> says that a text is one that \<open>float.__repr__\<close> gives: \<open>nan\<close>,
  \<open>inf\<close>, \<open>-inf\<close>, or a number with a fraction or an exponent that the scanner matches
  as a whole. \<open>floats_ok\<close> says it of the texts of all floats in a value.
  \<open>reread\<close> is the value that the decoder gives for the encoding of a value: every
  float is the float of its text.
\<close>

definition is_float_repr :: "pystr \<Rightarrow> bool" where
  "is_float_repr r =
     (r = str ''nan'' \<or> r = str ''inf'' \<or> r = str ''-inf'' \<or> match_number r = Some (r, True, []))"

definition number_ends :: "pystr \<Rightarrow> bool" where
  "number_ends rest =
     (case rest of
        [] \<Rightarrow> True
      | c # cs \<Rightarrow> \<not> is_digit c \<and> c \<noteq> 46 \<and> c \<noteq> 101 \<and> c \<noteq> 69 \<and> c \<noteq> 43 \<and> c \<noteq> 45)"

fun reread :: "'f pylib \<Rightarrow> 'f json \<Rightarrow> 'f json"
  and reread_list :: "'f pylib \<Rightarrow> 'f json list \<Rightarrow> 'f json list"
  and reread_dict :: "'f pylib \<Rightarrow> (pystr \<times> 'f json) list \<Rightarrow> (pystr \<times> 'f json) list"
where
  "reread L JNull = JNull"
| "reread L (JBool b) = JBool b"
| "reread L (JInt i) = JInt i"
| "reread L (JFloat x) = JFloat (float_of L (float_repr L x))"
| "reread L (JString s) = JString s"
| "reread L (JArray vs) = JArray (reread_list L vs)"
| "reread L (JObject kvs) = JObject (dict_of_pairs (reread_dict L kvs))"
| "reread_list L [] = []"
| "reread_list L (v # vs) = reread L v # reread_list L vs"
| "reread_dict L [] = []"
| "reread_dict L ((k, v) # kvs) = (k, reread L v) # reread_dict L kvs"

definition value_ends :: "pystr \<Rightarrow> bool" where
  "value_ends rest =
     (case rest of [] \<Rightarrow> True | c # cs \<Rightarrow> c = 44 \<or> c = 93 \<or> c = 125 \<or> c = 10)"

definition value_starts :: "pystr \<Rightarrow> bool" where
  "value_starts s =
     (case s of [] \<Rightarrow> False | c # cs \<Rightarrow> \<not> is_ws c \<and> c \<noteq> 93 \<and> c \<noteq> 125 \<and> c \<noteq> 0xFEFF)"

definition floats_ok :: "'f pylib \<Rightarrow> 'f json \<Rightarrow> bool" where
  "floats_ok L v = (\<forall>x\<in>set_json v. is_float_repr (float_repr L x))"

section \<open>Example inputs\<close>

text \<open>
  A library whose floats are the texts of their literals. It agrees with the interpreter
  on every literal that is already the shortest text of its float, such as \<open>4.5\<close>. Its
  standard output is encoded in UTF-8, which has bytes for every character that is not a
  surrogate (U+D800 to U+DFFF); of the traceback it gives the line of the exception
  without the frames and without the position of the character.
\<close>

definition example_lib :: "pystr pylib" where
  "example_lib =
     \<lparr>float_of = id, float_repr = id, decode_error_str = (\<lambda>s. str ''Expecting value''),
      stdout_encodes = (\<lambda>c. c < 0xD800 \<or> 0xDFFF < c),
      traceback_tail = (\<lambda>t. str ''UnicodeEncodeError: surrogates not allowed'' @ [10])\<rparr>"

text \<open>A network that answers every request with one status code and one body.\<close>

definition serve :: "int \<Rightarrow> pystr \<Rightarrow> pystr \<Rightarrow> http_result" where
  "serve code body url = Response code body"

definition example_args :: "bool \<Rightarrow> parse_result" where
  "example_args p = Namespace \<lparr>app_id = str ''1234567890'', country = str ''ua'', pretty = p\<rparr>"

definition example_block :: pystr where
  \<open>example_block = str ''"contentType":"productRatings","marker":null,"items":[{"ratingAverage":4.5,"totalNumberOfRatings":120,"ratingCounts":[80,20,10,5,5]}]''\<close>

definition nonnull_marker_body :: pystr where
  \<open>nonnull_marker_body = str ''<html>"contentType":"productRatings","marker":"m1","items":[{"ratingAverage":4.5,"totalNumberOfRatings":120,"ratingCounts":[80,20,10,5,5]}]</html>''\<close>

definition missing_keys_body :: pystr where
  \<open>missing_keys_body = str ''<script>{"contentType":"productRatings","marker":null,"items":[{"ratingAverage":4.5}]}</script>''\<close>

definition nonnumeric_body :: pystr where
  \<open>nonnumeric_body = str ''"contentType":"productRatings","marker":null,"items":[{"ratingAverage":4.5,"totalNumberOfRatings":120,"ratingCounts":["a","b","c","d","e"]}]''\<close>

text \<open>What \<open>argparse\<close> writes for a command line without \<open>app_id\<close>.\<close>

definition usage_error_text :: pystr where
  "usage_error_text =
     str ''usage: appstore-ratings-extractor.py [-h] [--country COUNTRY] [--pretty] app_id'' @ [10]
     @ str ''appstore-ratings-extractor.py: error: the following arguments are required: app_id''
     @ [10]"

definition example_output :: pystr where
  \<open>example_output = str ''{"ratingAverage": 4.5, "totalNumberOfRatings": 120, "ratingCounts": [80, 20, 10, 5, 5]}''\<close>

definition example_summary :: "'f pylib \<Rightarrow> (pystr \<times> 'f json) list" where
  "example_summary L =
     [(str ''ratingAverage'', JFloat (float_of L (str ''4.5''))),
      (str ''totalNumberOfRatings'', JInt 120),
      (str ''ratingCounts'', JArray [JInt 80, JInt 20, JInt 10, JInt 5, JInt 5])]"

text \<open>The example block behind an earlier block with an empty record.\<close>

definition shadowed_body :: pystr where
  \<open>shadowed_body = str ''"contentType":"productRatings","marker":null,"items":[{}]'' @ example_block\<close>

text \<open>Two blocks; the first one has two records and a field that is not required.\<close>

definition two_blocks_body :: pystr where
  \<open>two_blocks_body = str ''<p>"contentType":"productRatings","marker":null,"items":[{"ratingAverage":1.5,"totalNumberOfRatings":2,"ratingCounts":[0,0,0,1,1],"id":7},{"ratingAverage":9}]</p>'' @ example_block\<close>


text \<open>
  A block whose \<open>ratingAverage\<close> is a string with the escape of the lone surrogate
  U+D800. The body itself is ASCII.
\<close>

definition surrogate_body :: pystr where
  \<open>surrogate_body = str ''"contentType":"productRatings","marker":null,"items":[{"ratingAverage":"'' @ [92] @ str ''ud800","totalNumberOfRatings":120,"ratingCounts":[80,20,10,5,5]}]''\<close>

definition surrogate_summary :: "(pystr \<times> 'f json) list" where
  "surrogate_summary =
     [(str ''ratingAverage'', JString [0xD800]), (str ''totalNumberOfRatings'', JInt 120),
      (str ''ratingCounts'', JArray [JInt 80, JInt 20, JInt 10, JInt 5, JInt 5])]"

section \<open>The search of the pattern\<close>

lemma match_at_prefix: "match_at s = Some g \<Longrightarrow> prefix (PATTERN_literal @ str ''{'') s"
  by (simp add: match_at_def split: if_splits)

lemma search_None_iff:
  "PATTERN_search s = None \<longleftrightarrow> (\<forall>i\<le>length s. match_at (drop i s) = None)"
proof (induction s)
  case Nil
  then show ?case by simp
next
  case (Cons c cs)
  have "(\<forall>i\<le>length (c # cs). match_at (drop i (c # cs)) = None)
        \<longleftrightarrow> match_at (c # cs) = None \<and> (\<forall>i\<le>length cs. match_at (drop i cs) = None)"
  proof
    assume a: "\<forall>i\<le>length (c # cs). match_at (drop i (c # cs)) = None"
    have "match_at (c # cs) = None" using a[rule_format, of 0] by simp
    moreover have "match_at (drop i cs) = None" if "i \<le> length cs" for i
      using a[rule_format, of "Suc i"] that by simp
    ultimately show "match_at (c # cs) = None \<and> (\<forall>i\<le>length cs. match_at (drop i cs) = None)"
      by blast
  next
    assume b: "match_at (c # cs) = None \<and> (\<forall>i\<le>length cs. match_at (drop i cs) = None)"
    show "\<forall>i\<le>length (c # cs). match_at (drop i (c # cs)) = None"
    proof (intro allI impI)
      fix i assume "i \<le> length (c # cs)"
      then show "match_at (drop i (c # cs)) = None"
        using b by (cases i) auto
    qed
  qed
  with Cons.IH show ?case by (auto split: option.splits)
qed

lemma search_skip:
  "\<forall>i<length pre. match_at (drop i (pre @ rest)) = None \<Longrightarrow>
   PATTERN_search (pre @ rest) = PATTERN_search rest"
proof (induction pre)
  case Nil
  then show ?case by simp
next
  case (Cons c pre)
  have "match_at (c # pre @ rest) = None" using Cons.prems[rule_format, of 0] by simp
  moreover have "\<forall>i<length pre. match_at (drop i (pre @ rest)) = None"
  proof (intro allI impI)
    fix i assume "i < length pre"
    then show "match_at (drop i (pre @ rest)) = None"
      using Cons.prems[rule_format, of "Suc i"] by simp
  qed
  ultimately show ?case using Cons.IH by simp
qed

lemma search_here: "match_at s = Some g \<Longrightarrow> PATTERN_search s = Some g"
  by (cases s) simp_all

lemma no_literal_no_match:
  assumes "prefix q PATTERN_literal" and "\<not> sublist q body"
  shows "PATTERN_search body = None"
proof -
  have "match_at (drop i body) = None" for i
  proof (rule ccontr)
    assume "match_at (drop i body) \<noteq> None"
    then obtain g where "match_at (drop i body) = Some g" by auto
    then have "prefix (PATTERN_literal @ str ''{'') (drop i body)" by (rule match_at_prefix)
    then have "prefix q (drop i body)"
      using assms(1) by (meson prefix_order.trans prefix_prefix)
    then have "sublist q (drop i body)" by simp
    then have "sublist q body" by (meson sublist_drop sublist_order.order.trans)
    with assms(2) show False by simp
  qed
  then show ?thesis by (simp add: search_None_iff)
qed

lemma extract_not_found:
  "PATTERN_search body = None \<Longrightarrow> extract_product_ratings L body = Inl NOT_FOUND"
  by (simp add: extract_product_ratings_def)

section \<open>Evaluation\<close>

text \<open>
  The equations of the scanner for a numeral of fuel, and the facts that evaluate the
  search, the decoder and a run on a concrete text.
\<close>

lemma scan_once_numeral: "scan_once L (numeral k) s = scan_once L (Suc (pred_numeral k)) s"
  by (simp only: numeral_eq_Suc)
lemma parse_array_numeral: "parse_array L (numeral k) s = parse_array L (Suc (pred_numeral k)) s"
  by (simp only: numeral_eq_Suc)
lemma parse_object_numeral: "parse_object L (numeral k) s = parse_object L (Suc (pred_numeral k)) s"
  by (simp only: numeral_eq_Suc)
lemmas fuel_numeral = scan_once.simps(2)[of _ "pred_numeral k" for k, folded scan_once_numeral]
  parse_array.simps(2)[of _ "pred_numeral k" for k, folded parse_array_numeral]
  parse_object.simps(2)[of _ "pred_numeral k" for k, folded parse_object_numeral]

lemmas loads_eval = json_loads_def str_def fuel_numeral skip_ws_def is_ws_def match_number_def
  scan_literal_def   match_sign_def match_int_def match_frac_def match_exp_def
  is_digit_def cons_result_def int_of_literal_def digits_value_def dict_of_pairs_def

lemmas search_eval = match_at_def PATTERN_literal_def str_def

lemma match_at_quote: "match_at s = Some g \<Longrightarrow> \<exists>t. s = 34 # t"
proof -
  assume "match_at s = Some g"
  then have "prefix (PATTERN_literal @ str ''{'') s" by (rule match_at_prefix)
  then obtain zs where "s = (PATTERN_literal @ str ''{'') @ zs" by (auto simp: prefix_def)
  then show ?thesis by (simp add: PATTERN_literal_def str_def)
qed

lemma no_quote_no_match:
  assumes "34 \<notin> set pre" and "i < length pre"
  shows "match_at (drop i (pre @ rest)) = None"
proof (rule ccontr)
  assume "match_at (drop i (pre @ rest)) \<noteq> None"
  then obtain g where "match_at (drop i (pre @ rest)) = Some g" by auto
  then obtain t where t: "drop i (pre @ rest) = 34 # t" using match_at_quote by blast
  have "drop i (pre @ rest) = pre ! i # drop (Suc i) (pre @ rest)"
    using assms(2) by (simp add: Cons_nth_drop_Suc nth_append)
  with t have "pre ! i = 34" by simp
  with assms show False using nth_mem by metis
qed

lemmas run_eval = main_def fetch_product_ratings_def serve_def example_args_def raises_for_status_def
  subscript_def dict_get_def

lemmas dumps_eval = json_dumps_def open_indent_def close_indent_def separator_def newline_indent_def
  encode_basestring_def escape_char_def floatstr_def int_repr_def digits.simps str_def

lemma match_example_block:
  \<open>match_at (example_block @ post) =
     Some (str ''{"ratingAverage":4.5,"totalNumberOfRatings":120,"ratingCounts":[80,20,10,5,5]}'')\<close>
  by (simp add: example_block_def search_eval)

lemma loads_example_block:
  \<open>json_loads L (str ''['' @ str ''{"ratingAverage":4.5,"totalNumberOfRatings":120,"ratingCounts":[80,20,10,5,5]}'' @ str '']'')
     = Inr (JArray [JObject (example_summary L)])\<close>
  by (simp add: loads_eval example_summary_def del: scan_once.simps parse_array.simps parse_object.simps)

lemma validate_example_summary: "validate (JObject (example_summary L)) = Inr (example_summary L)"
  by (simp add: validate_def example_summary_def REQUIRED_KEYS_def dict_get_def str_def)

lemma extract_example:
  assumes "PATTERN_search body = PATTERN_search (example_block @ post)"
  shows "extract_product_ratings L body = Inr (example_summary L)"
proof -
  have s: \<open>PATTERN_search body =
     Some (str ''{"ratingAverage":4.5,"totalNumberOfRatings":120,"ratingCounts":[80,20,10,5,5]}'')\<close>
    unfolding assms by (rule search_here[OF match_example_block])
  show ?thesis
    unfolding extract_product_ratings_def s
    by (simp only: option.case loads_example_block sum.case subscript0.simps validate_example_summary)
qed

lemma dumps_example:
  "float_repr L (float_of L (str ''4.5'')) = str ''4.5'' \<Longrightarrow>
   json_dumps L None (JObject (example_summary L)) = example_output"
  by (simp add: example_summary_def example_output_def dumps_eval)

lemma fetch_example:
  assumes "net (product_url app ctry) = Response code body"
    and "\<not> raises_for_status code"
    and "PATTERN_search body = PATTERN_search (example_block @ post)"
  shows "fetch_product_ratings L net app ctry = Inr (example_summary L)"
proof -
  have "extract_product_ratings L body = Inr (example_summary L)"
    by (rule extract_example[OF assms(3)])
  moreover have "subscript (example_summary L) (str ''ratingAverage'') = Inr (JFloat (float_of L (str ''4.5'')))"
    "subscript (example_summary L) (str ''totalNumberOfRatings'') = Inr (JInt 120)"
    "subscript (example_summary L) (str ''ratingCounts'') = Inr (JArray [JInt 80, JInt 20, JInt 10, JInt 5, JInt 5])"
    by (simp_all add: subscript_def dict_get_def example_summary_def str_def)
  ultimately show ?thesis
    using assms(1,2) by (simp add: fetch_product_ratings_def example_summary_def)
qed

section \<open>The texts of the errors\<close>

text \<open>No text that the program itself writes into an exception has a line break.\<close>

lemma digits_range: "c \<in> set (digits n) \<Longrightarrow> 48 \<le> c \<and> c \<le> 57"
proof (induction n arbitrary: c rule: digits.induct)
  case (1 n)
  show ?case
  proof (cases "n < 10")
    case True
    then have "digits n = [48 + n]" by (subst digits.simps) simp
    with 1(2) True show ?thesis by simp
  next
    case False
    then have "digits n = digits (n div 10) @ [48 + n mod 10]" by (subst digits.simps) simp
    with 1 False show ?thesis by auto
  qed
qed

lemma digits_single_line: "10 \<notin> set (digits n)"
proof
  assume "10 \<in> set (digits n)"
  then have "(48::nat) \<le> 10" using digits_range by blast
  then show False by simp
qed

lemma int_repr_single_line: "10 \<notin> set (int_repr i)"
  by (simp add: int_repr_def digits_single_line)

lemma join_avoids:
  "\<forall>x\<in>set xs. c \<notin> set x \<Longrightarrow> c \<notin> set sep \<Longrightarrow> c \<notin> set (join sep xs)"
  by (induction sep xs rule: join.induct) auto

lemma subscript0_single_line: "subscript0 v = Inl e \<Longrightarrow> 10 \<notin> set (exc_str e)"
  by (cases v rule: subscript0.cases) (auto simp: str_def)

lemma required_keys_single_line: "\<forall>x\<in>set (filter P REQUIRED_KEYS). 10 \<notin> set x"
  by (simp add: REQUIRED_KEYS_def str_def)

lemma validate_single_line:
  assumes "validate v = Inl e"
  shows "10 \<notin> set (exc_str e)"
proof (cases v)
  case (JObject d)
  let ?m = "filter (\<lambda>key. dict_get d key = None) REQUIRED_KEYS"
  show ?thesis
  proof (cases "?m = []")
    case False
    then have "e = RuntimeError (str ''Missing expected keys in productRatings block: ''
                                   @ join (str '', '') ?m)"
      using assms JObject by (simp add: validate_def Let_def)
    moreover have "10 \<notin> set (join (str '', '') ?m)"
      by (rule join_avoids[OF required_keys_single_line]) (simp add: str_def)
    ultimately show ?thesis by (simp add: str_def)
  next
    case True
    then have "e = SHAPE_ERROR \<or> e = KeyError (39 # str ''ratingCounts'' @ [39])"
      using assms JObject
      by (auto simp: validate_def Let_def split: option.splits json.splits if_splits)
    then show ?thesis by (auto simp: SHAPE_ERROR_def str_def)
  qed
qed (use assms in \<open>auto simp: validate_def str_def\<close>)

lemma extract_single_line:
  assumes "\<forall>s. 10 \<notin> set (decode_error_str L s)"
    and "extract_product_ratings L body = Inl e"
  shows "10 \<notin> set (exc_str e)"
proof (cases "PATTERN_search body")
  case None
  then have "e = NOT_FOUND" using assms(2) by (simp add: extract_product_ratings_def)
  then show ?thesis by (simp add: NOT_FOUND_def str_def)
next
  case (Some block)
  show ?thesis
  proof (cases "json_loads L (str ''['' @ block @ str '']'')")
    case (Inl x)
    then have "e = RuntimeError (str ''Failed to decode productRatings JSON: ''
                                  @ decode_error_str L (str ''['' @ block @ str '']''))"
      using assms(2) Some by (simp add: extract_product_ratings_def)
    then show ?thesis using assms(1) by (simp add: str_def)
  next
    case (Inr doc)
    show ?thesis
    proof (cases "subscript0 doc")
      case (Inl x)
      then have "e = x" using assms(2) Some Inr by (simp add: extract_product_ratings_def)
      with Inl show ?thesis by (simp add: subscript0_single_line)
    next
      case r: (Inr parsed)
      then have "validate parsed = Inl e"
        using assms(2) Some Inr by (simp add: extract_product_ratings_def)
      then show ?thesis by (rule validate_single_line)
    qed
  qed
qed

lemma fetch_single_line:
  assumes "\<forall>t. net (product_url app ctry) = RequestException t \<longrightarrow> 10 \<notin> set t"
    and "\<forall>s. 10 \<notin> set (decode_error_str L s)"
    and "fetch_product_ratings L net app ctry = Inl e"
  shows "10 \<notin> set (exc_str e)"
proof (cases "net (product_url app ctry)")
  case (RequestException t)
  then have "e = RuntimeError (str ''Failed to fetch App Store page: '' @ t)"
    using assms(3) by (simp add: fetch_product_ratings_def)
  then show ?thesis using assms(1) RequestException by (simp add: str_def)
next
  case (Response code body)
  show ?thesis
  proof (cases "raises_for_status code")
    case True
    then have "e = RuntimeError (str ''App Store page returned HTTP '' @ int_repr code)"
      using assms(3) Response by (simp add: fetch_product_ratings_def)
    then show ?thesis by (simp add: str_def int_repr_single_line)
  next
    case False
    show ?thesis
    proof (cases "extract_product_ratings L body")
      case (Inl x)
      then have "e = x" using assms(3) Response False by (simp add: fetch_product_ratings_def)
      with Inl show ?thesis using extract_single_line[OF assms(2)] by blast
    next
      case (Inr data)
      then have "e = KeyError (39 # str ''ratingAverage'' @ [39])
                 \<or> e = KeyError (39 # str ''totalNumberOfRatings'' @ [39])
                 \<or> e = KeyError (39 # str ''ratingCounts'' @ [39])"
        using assms(3) Response False
        by (auto simp: fetch_product_ratings_def subscript_def split: option.splits)
      then show ?thesis by (auto simp: str_def)
    qed
  qed
qed

section \<open>The encoder and the summary\<close>

lemma escape_char_single_line: "10 \<notin> set (escape_char c)"
  by (simp add: escape_char_def hex_digit_def)

lemma encode_basestring_single_line: "10 \<notin> set (encode_basestring s)"
  by (induction s) (simp_all add: encode_basestring_def escape_char_single_line)

lemma floatstr_single_line: "10 \<notin> set (float_repr L x) \<Longrightarrow> 10 \<notin> set (floatstr L x)"
  by (simp add: floatstr_def Let_def str_def)

lemma iterencode_single_line:
  "(\<forall>x\<in>set_json v. 10 \<notin> set (float_repr L x)) \<Longrightarrow> ind = None \<Longrightarrow>
     10 \<notin> set (iterencode L ind level v)"
  "(\<forall>w\<in>set vs. \<forall>x\<in>set_json w. 10 \<notin> set (float_repr L x)) \<Longrightarrow> ind = None \<Longrightarrow>
     10 \<notin> set (iterencode_list L ind level vs)"
  "(\<forall>kv\<in>set kvs. \<forall>x\<in>set_json (snd kv). 10 \<notin> set (float_repr L x)) \<Longrightarrow> ind = None \<Longrightarrow>
     10 \<notin> set (iterencode_dict L ind level kvs)"
proof (induction L ind level v and L ind level vs and L ind level kvs
       rule: iterencode_iterencode_list_iterencode_dict.induct)
  case (1 L ind level)
  then show ?case by (simp add: str_def)
next
  case (2 L ind level b)
  then show ?case by (simp add: str_def)
next
  case (3 L ind level i)
  then show ?case by (simp add: int_repr_single_line)
next
  case (4 L ind level x)
  then show ?case by (simp add: floatstr_single_line)
next
  case (5 L ind level s)
  then show ?case by (simp add: encode_basestring_single_line)
next
  case (6 L ind level vs)
  then show ?case by (simp add: str_def open_indent_def close_indent_def)
next
  case (7 L ind level kvs)
  have "\<forall>kv\<in>set kvs. \<forall>x\<in>set_json (snd kv). 10 \<notin> set (float_repr L x)"
    using 7(2) by (fastforce simp: snds.simps)
  with 7 show ?case by (simp add: str_def open_indent_def close_indent_def)
next
  case (8 L ind level)
  then show ?case by simp
next
  case (9 L ind level v vs)
  then show ?case by (simp add: separator_def str_def)
next
  case (10 L ind level)
  then show ?case by simp
next
  case (11 L ind level k v kvs)
  then show ?case by (simp add: separator_def str_def encode_basestring_single_line)
qed

lemma fetch_summary:
  assumes "fetch_product_ratings L net app ctry = Inr summary"
  shows "\<exists>code body data av tv cv.
           net (product_url app ctry) = Response code body \<and> \<not> raises_for_status code
           \<and> extract_product_ratings L body = Inr data
           \<and> dict_get data (str ''ratingAverage'') = Some av
           \<and> dict_get data (str ''totalNumberOfRatings'') = Some tv
           \<and> dict_get data (str ''ratingCounts'') = Some cv
           \<and> summary = [(str ''ratingAverage'', av), (str ''totalNumberOfRatings'', tv),
                         (str ''ratingCounts'', cv)]"
  using assms
  by (auto simp: fetch_product_ratings_def subscript_def
           split: http_result.splits if_splits sum.splits option.splits)

lemma dumps_summary:
  \<open>json_dumps L None (JObject [(str ''ratingAverage'', av), (str ''totalNumberOfRatings'', tv),
                                (str ''ratingCounts'', cv)]) =
     str ''{"ratingAverage": '' @ iterencode L None 1 av
     @ str '', "totalNumberOfRatings": '' @ iterencode L None 1 tv
     @ str '', "ratingCounts": '' @ iterencode L None 1 cv @ str ''}''\<close>
  by (simp add: json_dumps_def open_indent_def close_indent_def separator_def
        encode_basestring_def escape_char_def str_def)

lemma extract_success:
  assumes "extract_product_ratings L body = Inr data"
  shows "\<exists>block others. PATTERN_search body = Some block
           \<and> json_loads L (str ''['' @ block @ str '']'') = Inr (JArray (JObject data # others))
           \<and> validate (JObject data) = Inr data"
proof -
  obtain block where b: "PATTERN_search body = Some block"
    using assms by (auto simp: extract_product_ratings_def split: option.splits)
  obtain doc where d: "json_loads L (str ''['' @ block @ str '']'') = Inr doc"
    using assms b by (auto simp: extract_product_ratings_def split: sum.splits)
  obtain parsed where p: "subscript0 doc = Inr parsed" and v: "validate parsed = Inr data"
    using assms b d by (auto simp: extract_product_ratings_def split: sum.splits)
  from v have pd: "parsed = JObject data"
    by (auto simp: validate_def Let_def split: json.splits if_splits option.splits)
  from p pd obtain others where "doc = JArray (JObject data # others)"
    by (cases doc rule: subscript0.cases) auto
  with b d v pd show ?thesis by blast
qed

lemma fetch_served_example:
  "\<not> raises_for_status code \<Longrightarrow>
   fetch_product_ratings L (serve code example_block) app ctry = Inr (example_summary L)"
proof -
  assume b: "\<not> raises_for_status code"
  have a: "serve code example_block (product_url app ctry) = Response code example_block"
    by (simp add: serve_def)
  have c: "PATTERN_search example_block = PATTERN_search (example_block @ [])" by simp
  show ?thesis by (rule fetch_example[where net = "serve code example_block", OF a b c])
qed

lemma search_earliest:
  assumes "match_at (drop i body) = Some g" and "\<forall>j<i. match_at (drop j body) = None"
  shows "PATTERN_search body = Some g"
proof -
  have "\<forall>j<length (take i body). match_at (drop j (take i body @ drop i body)) = None"
    using assms(2) by simp
  then have "PATTERN_search (take i body @ drop i body) = PATTERN_search (drop i body)"
    by (rule search_skip)
  then show ?thesis using search_here[OF assms(1)] by simp
qed

section \<open>The decoder terminates within its fuel\<close>

text \<open>
  Every successful step of the scanner consumes input, so the fuel that \<open>json_loads\<close>
  gives, more than twice the length of the document, is never used up. The document
  that the program decodes is an opening bracket and a text that starts with an opening
  brace: its value, if it has one, is a list whose first element is a \<open>dict\<close>, and the
  exceptions that the program raises are \<open>RuntimeError\<close>s only.
\<close>

lemma skip_ws_length: "length (skip_ws s) \<le> length s"
  by (simp add: skip_ws_def length_dropWhile_le)

lemma cons_result_Some:
  "cons_result c r = Some (x, rest) \<longleftrightarrow> (\<exists>y. r = Some (y, rest) \<and> x = c # y)"
  by (auto simp: cons_result_def split: option.splits)

lemma scanstring_length: "scanstring s = Some (x, r) \<Longrightarrow> length r < length s"
proof (induction "length s" arbitrary: s x rule: less_induct)
  case less
  then obtain c cs where s: "s = c # cs" by (cases s) auto
  have IH: "\<And>t y. length t \<le> length cs \<Longrightarrow> scanstring t = Some (y, r) \<Longrightarrow> length r < length s"
  proof -
    fix t y assume a: "length t \<le> length cs" and b: "scanstring t = Some (y, r)"
    have "length t < length s" using a s by simp
    from less.hyps[OF this b] show "length r < length s" using a s by simp
  qed
  show ?case
  proof (cases "c = 34")
    case True
    with less.prems s show ?thesis by simp
  next
    case n34: False
    show ?thesis
    proof (cases "c = 92")
      case False
      with n34 less.prems s obtain y where "scanstring cs = Some (y, r)"
        by (auto simp: cons_result_Some split: if_splits)
      then show ?thesis using IH[of cs] by simp
    next
      case True
      then obtain e es where cs: "cs = e # es"
        using less.prems s n34 by (cases cs) auto
      show ?thesis
      proof (cases "e = 117")
        case False
        then obtain y where "scanstring es = Some (y, r)"
          using less.prems s n34 True cs by (auto simp: cons_result_Some split: option.splits)
        then show ?thesis using IH[of es] cs by simp
      next
        case e: True
        have "\<exists>t y. length t \<le> length cs \<and> scanstring t = Some (y, r)"
          using less.prems s n34 True cs e
          by (auto simp: cons_result_Some split: option.splits if_splits
                   intro: exI[of _ "drop 4 es"] exI[of _ "drop 10 es"])
        then show ?thesis using IH by blast
      qed
    qed
  qed
qed

lemma match_sign_length: "match_sign s = (sg, s1) \<Longrightarrow> length s1 \<le> length s"
  by (auto simp: match_sign_def split: list.splits if_splits)

lemma match_int_length: "match_int s = Some (ip, s2) \<Longrightarrow> length s2 < length s"
  by (auto simp: match_int_def less_Suc_eq_le length_dropWhile_le split: list.splits if_splits)

lemma match_frac_length: "match_frac s = (fp, s3) \<Longrightarrow> length s3 \<le> length s"
proof -
  have "length (dropWhile is_digit qs) \<le> Suc (Suc (length qs))" for qs
    using length_dropWhile_le[of is_digit qs] by simp
  then show "match_frac s = (fp, s3) \<Longrightarrow> length s3 \<le> length s"
    by (auto simp: match_frac_def split: list.splits if_splits)
qed

lemma match_exp_length: "match_exp s = (ep, s4) \<Longrightarrow> length s4 \<le> length s"
proof -
  have a: "length (dropWhile is_digit qs) \<le> Suc (Suc (length qs))" for qs
    using length_dropWhile_le[of is_digit qs] by simp
  have b: "length (dropWhile is_digit qs) \<le> Suc (length qs)" for qs
    using length_dropWhile_le[of is_digit qs] by simp
  show "match_exp s = (ep, s4) \<Longrightarrow> length s4 \<le> length s"
    using a b by (auto simp: match_exp_def Let_def split: list.splits if_splits)
qed

lemma match_number_length: "match_number s = Some (lit, fl, r) \<Longrightarrow> length r < length s"
proof -
  assume a: "match_number s = Some (lit, fl, r)"
  obtain sg s1 where 1: "match_sign s = (sg, s1)" by (cases "match_sign s")
  obtain ip s2 where 2: "match_int s1 = Some (ip, s2)"
    using a 1 by (auto simp: match_number_def split: option.splits)
  obtain fp s3 where 3: "match_frac s2 = (fp, s3)" by (cases "match_frac s2")
  obtain ep s4 where 4: "match_exp s3 = (ep, s4)" by (cases "match_exp s3")
  have "r = s4" using a 1 2 3 4 by (simp add: match_number_def)
  then show ?thesis
    using match_sign_length[OF 1] match_int_length[OF 2] match_frac_length[OF 3]
      match_exp_length[OF 4] by simp
qed

lemma scan_literal_length: "scan_literal L s = Inr (v, r) \<Longrightarrow> length r < length s"
proof -
  assume a: "scan_literal L s = Inr (v, r)"
  have p: "prefix k s \<Longrightarrow> k \<noteq> [] \<Longrightarrow> length (drop (length k) s) < length s" for k :: pystr
    by (auto simp: prefix_def)
  show ?thesis
  proof (cases "match_number s")
    case None
    then show ?thesis using a p[of "str ''null''"] p[of "str ''true''"] p[of "str ''false''"]
        p[of "str ''NaN''"] p[of "str ''Infinity''"] p[of "str ''-Infinity''"]
      by (auto simp: scan_literal_def str_def split: if_splits)
  next
    case (Some t)
    then obtain lit fl r' where t: "match_number s = Some (lit, fl, r')" by (cases t) auto
    from match_number_length[OF t] show ?thesis
      using a t p[of "str ''null''"] p[of "str ''true''"] p[of "str ''false''"]
        p[of "str ''NaN''"] p[of "str ''Infinity''"] p[of "str ''-Infinity''"]
      by (auto simp: scan_literal_def str_def split: if_splits)
  qed
qed

lemma scan_literal_not_Exhausted: "scan_literal L s \<noteq> Inl Exhausted"
  by (auto simp: scan_literal_def split: option.splits)

lemma scan_progress:
  "scan_once L n s = Inr (v, r) \<Longrightarrow> length r < length s"
  "parse_array L n s = Inr (vs, r) \<Longrightarrow> length r < length s"
  "parse_object L n s = Inr (kvs, r) \<Longrightarrow> length r < length s"
proof (induction n arbitrary: s v r vs kvs)
  case 0
  { case 1 then show ?case by simp }
  { case 2 then show ?case by simp }
  { case 3 then show ?case by simp }
next
  case (Suc n)
  { case 1
    then obtain c cs where s: "s = c # cs" by (cases s) auto
    consider (str) "c = 34" | (obj) "c = 123" | (arr) "c = 91" | (other) "c \<noteq> 34" "c \<noteq> 123" "c \<noteq> 91"
      by blast
    then show ?case
    proof cases
      case str
      then show ?thesis using 1 s scanstring_length
        by (fastforce split: option.splits)
    next
      case obj
      then obtain d ds where d: "skip_ws cs = d # ds"
        using 1 s by (auto split: list.splits)
      have le: "length (d # ds) \<le> length cs" using skip_ws_length[of cs] d by simp
      show ?thesis
      proof (cases "d = 125")
        case True
        then show ?thesis using 1 s obj d le by auto
      next
        case False
        then obtain kvs' where "parse_object L n (d # ds) = Inr (kvs', r)"
          using 1 s obj d by (auto split: sum.splits)
        from Suc.IH(3)[OF this] show ?thesis using le s by simp
      qed
    next
      case arr
      then obtain d ds where d: "skip_ws cs = d # ds"
        using 1 s by (auto split: list.splits)
      have le: "length (d # ds) \<le> length cs" using skip_ws_length[of cs] d by simp
      show ?thesis
      proof (cases "d = 93")
        case True
        then show ?thesis using 1 s arr d le by auto
      next
        case False
        then obtain vs' where "parse_array L n (d # ds) = Inr (vs', r)"
          using 1 s arr d by (auto split: sum.splits)
        from Suc.IH(2)[OF this] show ?thesis using le s by simp
      qed
    next
      case other
      then have "scan_literal L s = Inr (v, r)" using 1 s by simp
      then show ?thesis by (rule scan_literal_length)
    qed }
  { case 2
    then obtain v r1 where v: "scan_once L n s = Inr (v, r1)"
      by (auto split: sum.splits)
    then have l1: "length r1 < length s" by (rule Suc.IH(1))
    obtain d ds where d: "skip_ws r1 = d # ds"
      using 2 v by (auto split: list.splits)
    have le: "length (d # ds) \<le> length r1" using skip_ws_length[of r1] d by simp
    show ?case
    proof (cases "d = 93")
      case True
      then show ?thesis using 2 v d le l1 by auto
    next
      case False
      then obtain vs' where p: "parse_array L n (skip_ws ds) = Inr (vs', r)"
        using 2 v d by (auto split: sum.splits if_splits)
      from Suc.IH(2)[OF p] show ?thesis using le l1 skip_ws_length[of ds] by simp
    qed }
  { case 3
    then obtain c cs where s: "s = c # cs" and c: "c = 34" by (cases s) (auto split: if_splits)
    obtain k r0 where k: "scanstring cs = Some (k, r0)"
      using 3 s c by (auto split: option.splits)
    have l0: "length r0 < length cs" using scanstring_length[OF k] .
    obtain d ds where d: "skip_ws r0 = d # ds" and d58: "d = 58"
      using 3 s c k by (auto split: list.splits if_splits)
    obtain v r2 where v: "scan_once L n (skip_ws ds) = Inr (v, r2)"
      using 3 s c k d d58 by (auto split: sum.splits)
    have l2: "length r2 < length (skip_ws ds)" using Suc.IH(1)[OF v] .
    obtain x xs where x: "skip_ws r2 = x # xs"
      using 3 s c k d d58 v by (auto split: list.splits)
    have chain: "length (x # xs) < length s"
      using l0 l2 skip_ws_length[of r0] skip_ws_length[of ds] skip_ws_length[of r2] d x s by simp
    show ?case
    proof (cases "x = 125")
      case True
      then show ?thesis using 3 s c k d d58 v x chain by auto
    next
      case False
      then obtain kvs' where p: "parse_object L n (skip_ws xs) = Inr (kvs', r)"
        using 3 s c k d d58 v x by (auto split: sum.splits if_splits)
      from Suc.IH(3)[OF p] show ?thesis using chain skip_ws_length[of xs] by simp
    qed }
qed

lemma scan_not_exhausted:
  "2 * length s < n \<Longrightarrow> scan_once L n s \<noteq> Inl Exhausted"
  "2 * length s + 1 < n \<Longrightarrow> parse_array L n s \<noteq> Inl Exhausted"
  "2 * length s + 1 < n \<Longrightarrow> parse_object L n s \<noteq> Inl Exhausted"
proof (induction n arbitrary: s)
  case 0
  { case 1 then show ?case by simp }
  { case 2 then show ?case by simp }
  { case 3 then show ?case by simp }
next
  case (Suc n)
  { case 1
    show ?case
    proof (cases s)
      case Nil
      then show ?thesis by simp
    next
      case (Cons c cs)
      have so: "parse_object L n (d # ds) \<noteq> Inl Exhausted" if "skip_ws cs = d # ds" for d ds
      proof -
        have "length (d # ds) \<le> length cs" using skip_ws_length[of cs] that by simp
        then have "2 * length (d # ds) + 1 < n" using 1 Cons by simp
        then show ?thesis by (rule Suc.IH(3))
      qed
      have sa: "parse_array L n (d # ds) \<noteq> Inl Exhausted" if "skip_ws cs = d # ds" for d ds
      proof -
        have "length (d # ds) \<le> length cs" using skip_ws_length[of cs] that by simp
        then have "2 * length (d # ds) + 1 < n" using 1 Cons by simp
        then show ?thesis by (rule Suc.IH(2))
      qed
      consider (str) "c = 34" | (obj) "c = 123" | (arr) "c = 91"
        | (other) "c \<noteq> 34" "c \<noteq> 123" "c \<noteq> 91" by blast
      then show ?thesis
      proof cases
        case str
        then show ?thesis using Cons by (simp split: option.splits)
      next
        case obj
        then show ?thesis using Cons so
          by (cases "skip_ws cs") (auto split: sum.splits)
      next
        case arr
        then show ?thesis using Cons sa
          by (cases "skip_ws cs") (auto split: sum.splits)
      next
        case other
        then show ?thesis using Cons scan_literal_not_Exhausted[of L s] by simp
      qed
    qed }
  { case 2
    have a: "scan_once L n s \<noteq> Inl Exhausted" using 2 by (intro Suc.IH(1)) simp
    have b: "parse_array L n (skip_ws ds) \<noteq> Inl Exhausted"
      if "scan_once L n s = Inr (v, r)" "skip_ws r = d # ds" for v r d ds
    proof -
      have "length r < length s" using scan_progress(1)[OF that(1)] .
      moreover have "length (d # ds) \<le> length r" using skip_ws_length[of r] that(2) by simp
      ultimately have "2 * length (skip_ws ds) + 1 < n"
        using 2 skip_ws_length[of ds] by simp
      then show ?thesis by (rule Suc.IH(2))
    qed
    show ?case
    proof (cases "scan_once L n s")
      case (Inl e)
      then show ?thesis using a by auto
    next
      case (Inr p)
      obtain v r where p: "p = (v, r)" by (cases p)
      show ?thesis
      proof (cases "skip_ws r")
        case Nil
        then show ?thesis using Inr p by simp
      next
        case (Cons d ds)
        then show ?thesis using Inr p b[of v r d ds]
          by (auto split: sum.splits)
      qed
    qed
  }
  { case 3
    have a: "scan_once L n (skip_ws ds) \<noteq> Inl Exhausted" if "s = c # cs" "scanstring cs = Some (k, r)" "skip_ws r = d # ds"
      for c cs k r d ds
    proof -
      have "length r < length cs" using scanstring_length[OF that(2)] .
      moreover have "length (d # ds) \<le> length r" using skip_ws_length[of r] that(3) by simp
      ultimately have "2 * length (skip_ws ds) < n"
        using 3 that(1) skip_ws_length[of ds] by simp
      then show ?thesis by (rule Suc.IH(1))
    qed
    have b: "parse_object L n (skip_ws xs) \<noteq> Inl Exhausted"
      if "s = c # cs" "scanstring cs = Some (k, r)" "skip_ws r = d # ds"
         "scan_once L n (skip_ws ds) = Inr (v, r2)" "skip_ws r2 = x # xs"
      for c cs k r d ds v r2 x xs
    proof -
      have "length r < length cs" using scanstring_length[OF that(2)] .
      moreover have "length (d # ds) \<le> length r" using skip_ws_length[of r] that(3) by simp
      moreover have "length r2 < length (skip_ws ds)" using scan_progress(1)[OF that(4)] .
      moreover have "length (x # xs) \<le> length r2" using skip_ws_length[of r2] that(5) by simp
      ultimately have "2 * length (skip_ws xs) + 1 < n"
        using 3 that(1) skip_ws_length[of ds] skip_ws_length[of xs] by simp
      then show ?thesis by (rule Suc.IH(3))
    qed
    show ?case
    proof (cases s)
      case Nil
      then show ?thesis by simp
    next
      case (Cons c cs)
      show ?thesis
      proof (cases "c = 34")
        case False
        then show ?thesis using Cons by simp
      next
        case True
        show ?thesis
        proof (cases "scanstring cs")
          case None
          then show ?thesis using Cons True by simp
        next
          case (Some kr)
          obtain k r where kr: "kr = (k, r)" by (cases kr)
          show ?thesis
          proof (cases "skip_ws r")
            case Nil
            then show ?thesis using Cons True Some kr by simp
          next
            case d: (Cons d ds)
            show ?thesis
            proof (cases "d = 58")
              case False
              then show ?thesis using Cons True Some kr d by simp
            next
              case d58: True
              show ?thesis
              proof (cases "scan_once L n (skip_ws ds)")
                case (Inl e)
                then show ?thesis
                  using Cons True Some kr d d58 a[OF Cons Some[unfolded kr] d] by auto
              next
                case (Inr p)
                obtain v r2 where p: "p = (v, r2)" by (cases p)
                show ?thesis
                proof (cases "skip_ws r2")
                  case Nil
                  then show ?thesis using Cons True Some kr d d58 Inr p by simp
                next
                  case x: (Cons x xs)
                  show ?thesis
                    using Cons True Some kr d d58 Inr p x
                      b[OF Cons Some[unfolded kr] d Inr[unfolded p] x]
                    by (auto split: sum.splits)
                qed
              qed
            qed
          qed
        qed
      qed
    qed
  }
qed

lemma json_loads_not_Exhausted: "json_loads L s \<noteq> Inl Exhausted"
proof -
  have "2 * length (skip_ws s) < Suc (2 * length s)" using skip_ws_length[of s] by simp
  then have "scan_once L (Suc (2 * length s)) (skip_ws s) \<noteq> Inl Exhausted"
    by (rule scan_not_exhausted(1))
  then show ?thesis
    by (auto simp: json_loads_def split: sum.splits)
qed

lemma scan_once_brace: "scan_once L n (123 # cs) = Inr (v, r) \<Longrightarrow> \<exists>d. v = JObject d"
  by (cases n; cases "skip_ws cs") (auto split: if_splits sum.splits)

lemma parse_array_brace:
  assumes "parse_array L n (123 # cs) = Inr (vs, r)"
  shows "\<exists>d vs'. vs = JObject d # vs'"
proof (cases n)
  case 0
  then show ?thesis using assms by simp
next
  case (Suc m)
  then obtain v r1 where v: "scan_once L m (123 # cs) = Inr (v, r1)"
    using assms by (auto split: sum.splits)
  then obtain d where "v = JObject d" using scan_once_brace by blast
  then show ?thesis
    using assms Suc v by (cases "skip_ws r1") (auto split: if_splits sum.splits)
qed

lemma loads_wrapped_brace:
  assumes "json_loads L (str ''['' @ (123 # x) @ str '']'') = Inr doc"
  shows "\<exists>d vs. doc = JArray (JObject d # vs)"
proof -
  let ?s = "91 # 123 # x @ [93]"
  have s: "str ''['' @ (123 # x) @ str '']'' = ?s" by (simp add: str_def)
  have w: "skip_ws ?s = ?s" "skip_ws (123 # x @ [93]) = 123 # x @ [93]"
    by (simp_all add: skip_ws_def is_ws_def)
  from assms obtain r where
    "scan_once L (Suc (2 * length ?s)) ?s = Inr (doc, r)"
    unfolding s json_loads_def w by (auto split: sum.splits if_splits)
  then obtain vs where "doc = JArray vs"
    and "parse_array L (2 * length ?s) (123 # x @ [93]) = Inr (vs, r)"
    by (auto simp: w split: sum.splits)
  then show ?thesis using parse_array_brace by blast
qed

lemma match_at_brace: "match_at s = Some g \<Longrightarrow> \<exists>x. g = 123 # x"
  by (auto simp: match_at_def str_def split: if_splits option.splits)

lemma search_brace: "PATTERN_search s = Some g \<Longrightarrow> \<exists>x. g = 123 # x"
  by (induction s) (auto dest: match_at_brace split: option.splits)

lemma loads_wrapped_is_dict:
  assumes "PATTERN_search body = Some block"
    and "json_loads L (str ''['' @ block @ str '']'') = Inr doc"
  shows "\<exists>d vs. doc = JArray (JObject d # vs)"
  using assms search_brace loads_wrapped_brace by blast

lemma extract_raises_RuntimeError:
  "extract_product_ratings L body = Inl e \<Longrightarrow> \<exists>m. e = RuntimeError m"
proof -
  assume a: "extract_product_ratings L body = Inl e"
  show ?thesis
  proof (cases "PATTERN_search body")
    case None
    then show ?thesis using a by (auto simp: extract_product_ratings_def NOT_FOUND_def)
  next
    case (Some block)
    show ?thesis
    proof (cases "json_loads L (str ''['' @ block @ str '']'')")
      case (Inl x)
      then show ?thesis using a Some by (auto simp: extract_product_ratings_def)
    next
      case (Inr doc)
      then obtain d vs where doc: "doc = JArray (JObject d # vs)"
        using loads_wrapped_is_dict[OF Some] by blast
      then have "validate (JObject d) = Inl e"
        using a Some Inr by (simp add: extract_product_ratings_def)
      then show ?thesis
        by (auto simp: validate_def Let_def SHAPE_ERROR_def dict_get_def REQUIRED_KEYS_def
                 split: if_splits option.splits json.splits)
    qed
  qed
qed

section \<open>The decoder reads what the encoder writes\<close>

text \<open>
  More fuel does not change a result; a number, a string and a constant that the encoder
  writes are read back by the scanner when a separator, a closing bracket or brace, a
  line break or the end of the text follows; and so is every value, with or without
  indentation.
\<close>

lemma scan_more_fuel:
  "scan_once L n s \<noteq> Inl Exhausted \<Longrightarrow> scan_once L (Suc n) s = scan_once L n s"
  "parse_array L n s \<noteq> Inl Exhausted \<Longrightarrow> parse_array L (Suc n) s = parse_array L n s"
  "parse_object L n s \<noteq> Inl Exhausted \<Longrightarrow> parse_object L (Suc n) s = parse_object L n s"
proof (induction n arbitrary: s)
  case 0
  { case 1 then show ?case by simp }
  { case 2 then show ?case by simp }
  { case 3 then show ?case by simp }
next
  case (Suc n)
  { case 1
    show ?case
    proof (cases s)
      case Nil
      then show ?thesis by simp
    next
      case (Cons c cs)
      consider (str) "c = 34" | (obj) "c = 123" | (arr) "c = 91"
        | (other) "c \<noteq> 34" "c \<noteq> 123" "c \<noteq> 91" by blast
      then show ?thesis
      proof cases
        case str
        then show ?thesis using Cons by simp
      next
        case obj
        show ?thesis
        proof (cases "skip_ws cs")
          case Nil
          then show ?thesis using Cons obj by simp
        next
          case d: (Cons d ds)
          show ?thesis
          proof (cases "d = 125")
            case True
            then show ?thesis using Cons obj d by simp
          next
            case False
            have "parse_object L n (d # ds) \<noteq> Inl Exhausted"
              using 1 Cons obj d False by (auto split: sum.splits)
            then have "parse_object L (Suc n) (d # ds) = parse_object L n (d # ds)"
              by (rule Suc.IH(3))
            then show ?thesis using Cons obj d False by simp
          qed
        qed
      next
        case arr
        show ?thesis
        proof (cases "skip_ws cs")
          case Nil
          then show ?thesis using Cons arr by simp
        next
          case d: (Cons d ds)
          show ?thesis
          proof (cases "d = 93")
            case True
            then show ?thesis using Cons arr d by simp
          next
            case False
            have "parse_array L n (d # ds) \<noteq> Inl Exhausted"
              using 1 Cons arr d False by (auto split: sum.splits)
            then have "parse_array L (Suc n) (d # ds) = parse_array L n (d # ds)"
              by (rule Suc.IH(2))
            then show ?thesis using Cons arr d False by simp
          qed
        qed
      next
        case other
        then show ?thesis using Cons by simp
      qed
    qed }
  { case 2
    have a: "scan_once L n s \<noteq> Inl Exhausted"
      using 2 by (auto split: sum.splits)
    then have e1: "scan_once L (Suc n) s = scan_once L n s" by (rule Suc.IH(1))
    show ?case
    proof (cases "scan_once L n s")
      case (Inl e)
      then show ?thesis using e1 by simp
    next
      case (Inr p)
      obtain v r where p: "p = (v, r)" by (cases p)
      show ?thesis
      proof (cases "skip_ws r")
        case Nil
        then show ?thesis using e1 Inr p by simp
      next
        case d: (Cons d ds)
        show ?thesis
        proof (cases "d = 44")
          case False
          then show ?thesis using e1 Inr p d by simp
        next
          case True
          have "parse_array L n (skip_ws ds) \<noteq> Inl Exhausted"
            using 2 Inr p d True by (auto split: sum.splits)
          then have "parse_array L (Suc n) (skip_ws ds) = parse_array L n (skip_ws ds)"
            by (rule Suc.IH(2))
          then show ?thesis using e1 Inr p d True by simp
        qed
      qed
    qed }
  { case 3
    show ?case
    proof (cases s)
      case Nil
      then show ?thesis by simp
    next
      case (Cons c cs)
      show ?thesis
      proof (cases "c = 34")
        case False
        then show ?thesis using Cons by simp
      next
        case True
        show ?thesis
        proof (cases "scanstring cs")
          case None
          then show ?thesis using Cons True by simp
        next
          case (Some kr)
          obtain k r where kr: "kr = (k, r)" by (cases kr)
          show ?thesis
          proof (cases "skip_ws r")
            case Nil
            then show ?thesis using Cons True Some kr by simp
          next
            case d: (Cons d ds)
            show ?thesis
            proof (cases "d = 58")
              case False
              then show ?thesis using Cons True Some kr d by simp
            next
              case d58: True
              have a: "scan_once L n (skip_ws ds) \<noteq> Inl Exhausted"
                using 3 Cons True Some kr d d58 by (auto split: sum.splits)
              then have e1: "scan_once L (Suc n) (skip_ws ds) = scan_once L n (skip_ws ds)"
                by (rule Suc.IH(1))
              show ?thesis
              proof (cases "scan_once L n (skip_ws ds)")
                case (Inl e)
                then show ?thesis using Cons True Some kr d d58 e1 by simp
              next
                case (Inr p)
                obtain v r2 where p: "p = (v, r2)" by (cases p)
                show ?thesis
                proof (cases "skip_ws r2")
                  case Nil
                  then show ?thesis using Cons True Some kr d d58 e1 Inr p by simp
                next
                  case x: (Cons x xs)
                  show ?thesis
                  proof (cases "x = 44")
                    case False
                    then show ?thesis using Cons True Some kr d d58 e1 Inr p x by simp
                  next
                    case x44: True
                    have "parse_object L n (skip_ws xs) \<noteq> Inl Exhausted"
                      using 3 Cons True Some kr d d58 Inr p x x44 by (auto split: sum.splits)
                    then have "parse_object L (Suc n) (skip_ws xs) = parse_object L n (skip_ws xs)"
                      by (rule Suc.IH(3))
                    then show ?thesis using Cons True Some kr d d58 e1 Inr p x x44 by simp
                  qed
                qed
              qed
            qed
          qed
        qed
      qed
    qed }
qed

lemma scan_once_fuel_mono:
  "n \<le> m \<Longrightarrow> scan_once L n s \<noteq> Inl Exhausted \<Longrightarrow> scan_once L m s = scan_once L n s"
proof (induction m)
  case 0
  then show ?case by simp
next
  case (Suc m)
  show ?case
  proof (cases "n = Suc m")
    case True
    then show ?thesis by simp
  next
    case False
    then have le: "n \<le> m" using Suc.prems(1) by simp
    have e: "scan_once L m s = scan_once L n s" by (rule Suc.IH[OF le Suc.prems(2)])
    then have "scan_once L m s \<noteq> Inl Exhausted" using Suc.prems(2) by simp
    then have "scan_once L (Suc m) s = scan_once L m s" by (rule scan_more_fuel(1))
    with e show ?thesis by simp
  qed
qed

lemma takeWhile_digits_append:
  "number_ends rest \<Longrightarrow> takeWhile is_digit (xs @ rest) = takeWhile is_digit xs"
  by (induction xs) (auto simp: number_ends_def split: list.splits)

lemma dropWhile_digits_append:
  "number_ends rest \<Longrightarrow> dropWhile is_digit (xs @ rest) = dropWhile is_digit xs @ rest"
  by (induction xs) (auto simp: number_ends_def split: list.splits)

lemma match_sign_append:
  "number_ends rest \<Longrightarrow> match_sign s = (sg, s1) \<Longrightarrow> match_sign (s @ rest) = (sg, s1 @ rest)"
  by (cases s) (auto simp: match_sign_def number_ends_def split: list.splits if_splits)

lemma match_int_append:
  "number_ends rest \<Longrightarrow> match_int s = Some (ip, s2) \<Longrightarrow> match_int (s @ rest) = Some (ip, s2 @ rest)"
  by (cases s)
     (auto simp: match_int_def takeWhile_digits_append dropWhile_digits_append split: if_splits)

lemma match_frac_append:
  assumes "number_ends rest" and "match_frac s = (fp, s3)"
  shows "match_frac (s @ rest) = (fp, s3 @ rest)"
proof (cases s)
  case Nil
  then show ?thesis using assms
    by (cases rest) (auto simp: match_frac_def number_ends_def split: list.splits)
next
  case (Cons p qs)
  show ?thesis
  proof (cases qs)
    case Nil
    then show ?thesis using assms Cons
      by (cases rest) (auto simp: match_frac_def number_ends_def)
  next
    case q: (Cons q qs')
    then show ?thesis using assms Cons
      by (auto simp: match_frac_def takeWhile_digits_append dropWhile_digits_append
               split: if_splits)
  qed
qed

lemma match_exp_append:
  assumes "number_ends rest" and "match_exp s = (ep, s4)"
  shows "match_exp (s @ rest) = (ep, s4 @ rest)"
proof (cases s)
  case Nil
  then show ?thesis using assms
    by (cases rest) (auto simp: match_exp_def number_ends_def)
next
  case (Cons e es)
  show ?thesis
  proof (cases "e = 101 \<or> e = 69")
    case False
    then show ?thesis using assms Cons by (auto simp: match_exp_def)
  next
    case True
    have tw0: "takeWhile is_digit rest = []"
      using assms(1) by (cases rest) (auto simp: number_ends_def)
    show ?thesis
    proof (cases es)
      case Nil
      have "match_exp (e # rest) = ([], e # rest)"
        using True assms(1) tw0
        by (cases rest) (auto simp: match_exp_def number_ends_def Let_def)
      moreover have "match_exp [e] = ([], [e])" using True by (auto simp: match_exp_def)
      ultimately show ?thesis using assms(2) Cons Nil by auto
    next
      case g: (Cons g gs)
      show ?thesis
      proof (cases "g = 43 \<or> g = 45")
        case sgn: True
        have "match_exp (e # g # gs @ rest) =
               (if takeWhile is_digit gs = [] then ([], e # g # gs @ rest)
                else (e # g # takeWhile is_digit gs, dropWhile is_digit gs @ rest))"
          using True sgn assms(1)
          by (auto simp: match_exp_def Let_def takeWhile_digits_append dropWhile_digits_append)
        moreover have "match_exp (e # g # gs) =
               (if takeWhile is_digit gs = [] then ([], e # g # gs)
                else (e # g # takeWhile is_digit gs, dropWhile is_digit gs))"
          using True sgn by (auto simp: match_exp_def Let_def)
        ultimately show ?thesis using assms(2) Cons g by (auto split: if_splits)
      next
        case sgn: False
        have "match_exp (e # g # gs @ rest) =
               (if takeWhile is_digit (g # gs) = [] then ([], e # g # gs @ rest)
                else (e # takeWhile is_digit (g # gs), dropWhile is_digit (g # gs) @ rest))"
          using True sgn assms(1) takeWhile_digits_append[OF assms(1), of "g # gs"]
            dropWhile_digits_append[OF assms(1), of "g # gs"]
          by (simp add: match_exp_def Let_def)
        moreover have "match_exp (e # g # gs) =
               (if takeWhile is_digit (g # gs) = [] then ([], e # g # gs)
                else (e # takeWhile is_digit (g # gs), dropWhile is_digit (g # gs)))"
          using True sgn by (simp add: match_exp_def Let_def)
        ultimately show ?thesis using assms(2) Cons g by (auto split: if_splits)
      qed
    qed
  qed
qed

lemma match_number_append:
  assumes "number_ends rest" and "match_number s = Some (lit, fl, r)"
  shows "match_number (s @ rest) = Some (lit, fl, r @ rest)"
proof -
  obtain sg s1 where 1: "match_sign s = (sg, s1)" by (cases "match_sign s")
  obtain ip s2 where 2: "match_int s1 = Some (ip, s2)"
    using assms(2) 1 by (auto simp: match_number_def split: option.splits)
  obtain fp s3 where 3: "match_frac s2 = (fp, s3)" by (cases "match_frac s2")
  obtain ep s4 where 4: "match_exp s3 = (ep, s4)" by (cases "match_exp s3")
  have r: "lit = sg @ ip @ fp @ ep" "fl = (fp \<noteq> [] \<or> ep \<noteq> [])" "r = s4"
    using assms(2) 1 2 3 4 by (auto simp: match_number_def)
  show ?thesis
    using match_sign_append[OF assms(1) 1] match_int_append[OF assms(1) 2]
      match_frac_append[OF assms(1) 3] match_exp_append[OF assms(1) 4] r
    by (simp add: match_number_def)
qed

lemma digits_small: "n < 10 \<Longrightarrow> digits n = [48 + n]"
  by (subst digits.simps) simp

lemma digits_large: "\<not> n < 10 \<Longrightarrow> digits n = digits (n div 10) @ [48 + n mod 10]"
  by (subst digits.simps) simp

lemma digits_all: "list_all is_digit (digits n)"
proof (induction n rule: digits.induct)
  case (1 n)
  show ?case
  proof (cases "n < 10")
    case True
    then show ?thesis by (simp add: digits_small is_digit_def)
  next
    case False
    have "n mod 10 < 10" by simp
    then have "is_digit (48 + n mod 10)" unfolding is_digit_def by linarith
    with 1 False show ?thesis by (simp add: digits_large)
  qed
qed

lemma digits_hd: "\<exists>d ds. digits n = d # ds \<and> is_digit d \<and> (d = 48 \<longrightarrow> n = 0 \<and> ds = [])"
proof (induction n rule: digits.induct)
  case (1 n)
  show ?case
  proof (cases "n < 10")
    case True
    then show ?thesis by (simp add: digits_small is_digit_def)
  next
    case False
    then have "n div 10 \<noteq> 0" by simp
    with 1[OF False] obtain d ds where "digits (n div 10) = d # ds" "is_digit d" "d \<noteq> 48"
      by auto
    then show ?thesis using False by (simp add: digits_large)
  qed
qed

lemma digits_value_snoc: "digits_value (xs @ [c]) = 10 * digits_value xs + (c - 48)"
  by (simp add: digits_value_def)

lemma digits_value_digits: "digits_value (digits n) = n"
proof (induction n rule: digits.induct)
  case (1 n)
  show ?case
  proof (cases "n < 10")
    case True
    then show ?thesis by (simp add: digits_small digits_value_def)
  next
    case False
    with 1 show ?thesis by (simp add: digits_large digits_value_snoc)
  qed
qed

lemma takeWhile_all: "list_all P xs \<Longrightarrow> takeWhile P xs = xs"
  by (induction xs) auto

lemma dropWhile_all: "list_all P xs \<Longrightarrow> dropWhile P xs = []"
  by (induction xs) auto

lemma match_int_digits: "match_int (digits n) = Some (digits n, [])"
proof -
  obtain d ds where d: "digits n = d # ds" "is_digit d" "d = 48 \<longrightarrow> n = 0 \<and> ds = []"
    using digits_hd by blast
  have "list_all is_digit ds" using digits_all[of n] d(1) by simp
  then show ?thesis using d
    by (auto simp: match_int_def takeWhile_all dropWhile_all)
qed

lemma match_number_digits: "match_number (digits n) = Some (digits n, False, [])"
proof -
  obtain d ds where d: "digits n = d # ds" "is_digit d" using digits_hd by blast
  then have "d \<noteq> 45" by (auto simp: is_digit_def)
  then have "match_sign (digits n) = ([], digits n)" using d by (simp add: match_sign_def)
  then show ?thesis
    by (simp add: match_number_def match_int_digits match_frac_def match_exp_def)
qed

lemma match_number_int_repr: "match_number (int_repr i) = Some (int_repr i, False, [])"
proof (cases "i < 0")
  case False
  then show ?thesis by (simp add: int_repr_def match_number_digits)
next
  case True
  have "match_sign (45 # digits (nat (- i))) = ([45], digits (nat (- i)))"
    by (simp add: match_sign_def)
  then show ?thesis using True
    by (simp add: int_repr_def match_number_def match_int_digits match_frac_def match_exp_def)
qed

lemma int_of_literal_int_repr: "int_of_literal (int_repr i) = i"
proof (cases "i < 0")
  case True
  then show ?thesis by (simp add: int_repr_def int_of_literal_def digits_value_digits)
next
  case False
  obtain d ds where d: "digits (nat i) = d # ds" "is_digit d" using digits_hd by blast
  then have "d \<noteq> 45" by (auto simp: is_digit_def)
  then have "int_of_literal (digits (nat i)) = int (digits_value (digits (nat i)))"
    using d by (simp add: int_of_literal_def)
  then show ?thesis using False by (simp add: int_repr_def digits_value_digits)
qed

lemma match_number_head:
  assumes "match_number s = Some x"
  shows "\<exists>d ds. is_digit d \<and> (s = d # ds \<or> s = 45 # d # ds)"
proof -
  obtain sg s1 where 1: "match_sign s = (sg, s1)" by (cases "match_sign s")
  obtain ip s2 where 2: "match_int s1 = Some (ip, s2)"
    using assms 1 by (auto simp: match_number_def split: option.splits)
  from 2 obtain d ds where d: "s1 = d # ds" "is_digit d"
    by (auto simp: match_int_def split: list.splits if_splits)
  from 1 have "s = s1 \<or> s = 45 # s1"
    by (auto simp: match_sign_def split: list.splits if_splits)
  with d show ?thesis by blast
qed

lemma scan_literal_number:
  assumes "match_number s = Some (lit, fl, [])" and "number_ends rest"
  shows "scan_literal L (s @ rest) =
           Inr (if fl then JFloat (float_of L lit) else JInt (int_of_literal lit), rest)"
proof -
  obtain d ds where d: "is_digit d" "s = d # ds \<or> s = 45 # d # ds"
    using match_number_head[OF assms(1)] by blast
  have np: "\<not> prefix (str ''null'') (s @ rest)" "\<not> prefix (str ''true'') (s @ rest)"
    "\<not> prefix (str ''false'') (s @ rest)" "\<not> prefix (str ''NaN'') (s @ rest)"
    "\<not> prefix (str ''Infinity'') (s @ rest)" "\<not> prefix (str ''-Infinity'') (s @ rest)"
    using d by (auto simp: str_def is_digit_def)
  have "match_number (s @ rest) = Some (lit, fl, rest)"
    using match_number_append[OF assms(2) assms(1)] by simp
  then show ?thesis using np by (simp add: scan_literal_def)
qed

lemma scan_literal_int:
  "number_ends rest \<Longrightarrow> scan_literal L (int_repr i @ rest) = Inr (JInt i, rest)"
  using scan_literal_number[OF match_number_int_repr, of rest L i]
  by (simp add: int_of_literal_int_repr)

lemma scan_literal_float:
  assumes "is_float_repr (float_repr L x)" and "number_ends rest"
  shows "scan_literal L (floatstr L x @ rest) = Inr (JFloat (float_of L (float_repr L x)), rest)"
proof -
  let ?r = "float_repr L x"
  consider (nan) "?r = str ''nan''" | (inf) "?r = str ''inf''" | (ninf) "?r = str ''-inf''"
    | (num) "?r \<noteq> str ''nan''" "?r \<noteq> str ''inf''" "?r \<noteq> str ''-inf''"
            "match_number ?r = Some (?r, True, [])"
    using assms(1) by (auto simp: is_float_repr_def)
  then show ?thesis
  proof cases
    case nan
    then have "floatstr L x = str ''NaN''" by (simp add: floatstr_def)
    then show ?thesis using nan by (simp add: scan_literal_def str_def)
  next
    case inf
    then have "floatstr L x = str ''Infinity''" by (simp add: floatstr_def str_def)
    then show ?thesis using inf by (simp add: scan_literal_def str_def)
  next
    case ninf
    then have "floatstr L x = str ''-Infinity''" by (simp add: floatstr_def str_def)
    then show ?thesis using ninf by (simp add: scan_literal_def str_def)
  next
    case num
    then have "floatstr L x = ?r" by (simp add: floatstr_def)
    then show ?thesis using scan_literal_number[OF num(4) assms(2), of L] by simp
  qed
qed

lemma hex_val_hex_digit: "d < 16 \<Longrightarrow> hex_val (hex_digit d) = Some d"
  by (auto simp: hex_val_def hex_digit_def)

lemma hex4_control:
  assumes "c < 32"
  shows "hex4 (48 # 48 # hex_digit (c div 16) # hex_digit (c mod 16) # t) = Some c"
proof -
  have a: "c div 16 < 16" using assms by simp
  have b: "c mod 16 < 16" by simp
  have "hex_val 48 = Some 0" by (simp add: hex_val_def)
  then show ?thesis
    using hex_val_hex_digit[OF a] hex_val_hex_digit[OF b] by simp
qed

lemma scanstring_escape_char:
  assumes "scanstring t = Some (cs, rest)"
  shows "scanstring (escape_char c @ t) = Some (c # cs, rest)"
proof -
  consider (short) "c = 34 \<or> c = 92 \<or> c = 10 \<or> c = 13 \<or> c = 9 \<or> c = 8 \<or> c = 12"
    | (control) "c < 32" "c \<noteq> 10" "c \<noteq> 13" "c \<noteq> 9" "c \<noteq> 8" "c \<noteq> 12"
    | (plain) "\<not> c < 32" "c \<noteq> 34" "c \<noteq> 92"
    by linarith
  then show ?thesis
  proof cases
    case short
    then show ?thesis using assms
      by (auto simp: escape_char_def unescape_def cons_result_def)
  next
    case control
    then have e: "escape_char c = [92, 117, 48, 48, hex_digit (c div 16), hex_digit (c mod 16)]"
      by (simp add: escape_char_def)
    have h: "hex4 (48 # 48 # hex_digit (c div 16) # hex_digit (c mod 16) # t) = Some c"
      by (rule hex4_control[OF control(1)])
    have "\<not> 0xD800 \<le> c" using control(1) by simp
    then show ?thesis
      unfolding e using assms h by (simp add: cons_result_def)
  next
    case plain
    then have "escape_char c = [c]" by (simp add: escape_char_def)
    then show ?thesis using assms plain by (simp add: cons_result_def)
  qed
qed

lemma scanstring_escaped:
  "scanstring (concat (map escape_char s) @ 34 # rest) = Some (s, rest)"
proof (induction s)
  case Nil
  then show ?case by simp
next
  case (Cons c cs)
  then show ?case using scanstring_escape_char[OF Cons.IH, of c] by simp
qed

lemma scanstring_encoded:
  "encode_basestring s @ rest = 34 # t \<Longrightarrow> scanstring t = Some (s, rest)"
  using scanstring_escaped[of s rest] by (simp add: encode_basestring_def)

lemma value_ends_number_ends: "value_ends rest \<Longrightarrow> number_ends rest"
  by (auto simp: value_ends_def number_ends_def is_digit_def split: list.splits)

lemma skip_ws_spaces: "list_all is_ws w \<Longrightarrow> skip_ws (w @ s) = skip_ws s"
  by (induction w) (auto simp: skip_ws_def)

lemma skip_ws_starts: "value_starts s \<Longrightarrow> skip_ws s = s"
  by (cases s) (auto simp: value_starts_def skip_ws_def)

lemma newline_indent_ws: "list_all is_ws (newline_indent n level)"
  by (simp add: newline_indent_def is_ws_def list_all_iff)

lemma open_indent_ws: "list_all is_ws (open_indent ind level)"
  by (cases ind) (simp_all add: open_indent_def newline_indent_ws)

lemma close_indent_ws: "list_all is_ws (close_indent ind level)"
  by (cases ind) (simp_all add: close_indent_def newline_indent_ws)

lemma separator_shape: "\<exists>w. separator ind level = 44 # w \<and> list_all is_ws w"
  by (cases ind) (simp_all add: separator_def str_def newline_indent_ws is_ws_def)

lemma close_indent_ends: "value_ends (close_indent ind level @ 93 # rest)"
  "value_ends (close_indent ind level @ 125 # rest)"
  by (cases ind; simp add: close_indent_def newline_indent_def value_ends_def)+

lemma skip_ws_close:
  "skip_ws (close_indent ind level @ 93 # rest) = 93 # rest"
  "skip_ws (close_indent ind level @ 125 # rest) = 125 # rest"
  by (simp_all add: skip_ws_spaces[OF close_indent_ws]) (simp_all add: skip_ws_def is_ws_def)

lemma int_repr_starts: "value_starts (int_repr i @ t)"
proof -
  obtain d ds where "digits (nat i) = d # ds" "is_digit d" using digits_hd by blast
  moreover obtain d' ds' where "digits (nat (- i)) = d' # ds'" "is_digit d'" using digits_hd by blast
  ultimately show ?thesis
    by (auto simp: int_repr_def value_starts_def is_ws_def is_digit_def)
qed

lemma floatstr_starts:
  assumes "is_float_repr (float_repr L x)"
  shows "value_starts (floatstr L x @ t)"
proof (cases "match_number (float_repr L x) = Some (float_repr L x, True, [])")
  case True
  from match_number_head[OF True] obtain d ds where
    "is_digit d" "float_repr L x = d # ds \<or> float_repr L x = 45 # d # ds" by blast
  then show ?thesis
    by (auto simp: floatstr_def Let_def value_starts_def is_ws_def is_digit_def str_def)
next
  case False
  then have "float_repr L x = str ''nan'' \<or> float_repr L x = str ''inf'' \<or> float_repr L x = str ''-inf''"
    using assms by (auto simp: is_float_repr_def)
  then show ?thesis
    by (auto simp: floatstr_def Let_def value_starts_def is_ws_def str_def)
qed

lemma iterencode_starts:
  assumes "\<forall>x\<in>set_json v. is_float_repr (float_repr L x)"
  shows "value_starts (iterencode L ind level v @ t)"
proof (cases v)
  case (JInt i)
  then show ?thesis using int_repr_starts by simp
next
  case (JFloat x)
  then show ?thesis using floatstr_starts assms by simp
qed (auto simp: value_starts_def is_ws_def str_def encode_basestring_def)

lemma iterencode_list_starts:
  "vs \<noteq> [] \<Longrightarrow> \<forall>w\<in>set vs. \<forall>x\<in>set_json w. is_float_repr (float_repr L x) \<Longrightarrow>
   value_starts (iterencode_list L ind level vs @ t)"
  using iterencode_starts by (cases vs) auto

lemma iterencode_dict_starts:
  "kvs \<noteq> [] \<Longrightarrow> \<exists>cs. iterencode_dict L ind level kvs @ t = 34 # cs"
  by (cases kvs) (auto simp: encode_basestring_def)

lemma floats_ok_simps:
  "floats_ok L (JArray vs) = list_all (floats_ok L) vs"
  "floats_ok L (JObject kvs) = list_all (\<lambda>kv. floats_ok L (snd kv)) kvs"
  "floats_ok L (JFloat x) = is_float_repr (float_repr L x)"
  by (auto simp: floats_ok_def list_all_iff snds.simps)

lemma scan_atom_fuel:
  "scan_once L (Suc m) (c # cs) = Inr p \<Longrightarrow> c \<noteq> 123 \<Longrightarrow> c \<noteq> 91 \<Longrightarrow> 0 < n \<Longrightarrow>
   scan_once L n (c # cs) = Inr p"
  by (cases n) auto

lemma roundtrip_atom:
  assumes "floats_ok L v" and "value_ends rest"
    and "\<And>vs. v \<noteq> JArray vs" and "\<And>kvs. v \<noteq> JObject kvs"
  shows "scan_once L (Suc m) (iterencode L ind level v @ rest) = Inr (reread L v, rest)"
proof (cases v)
  case JNull
  then show ?thesis by (simp add: str_def scan_literal_def)
next
  case (JBool b)
  then show ?thesis by (simp add: str_def scan_literal_def)
next
  case (JInt i)
  obtain c cs where c: "int_repr i @ rest = c # cs" "\<not> is_ws c" "c \<noteq> 93" "c \<noteq> 125"
    using int_repr_starts[of i rest] by (auto simp: value_starts_def split: list.splits)
  have l: "scan_literal L (int_repr i @ rest) = Inr (JInt i, rest)"
    by (rule scan_literal_int[OF value_ends_number_ends[OF assms(2)]])
  have h: "c \<noteq> 34 \<and> c \<noteq> 123 \<and> c \<noteq> 91"
  proof -
    obtain d ds where "match_number (int_repr i) = Some (int_repr i, False, [])"
      "is_digit d" "int_repr i = d # ds \<or> int_repr i = 45 # d # ds"
      using match_number_head[OF match_number_int_repr] match_number_int_repr by blast
    then show ?thesis using c(1) by (auto simp: is_digit_def)
  qed
  show ?thesis using JInt l h c(1) by simp
next
  case (JFloat x)
  have ok: "is_float_repr (float_repr L x)" using assms(1) JFloat by (simp add: floats_ok_simps)
  have l: "scan_literal L (floatstr L x @ rest) = Inr (JFloat (float_of L (float_repr L x)), rest)"
    by (rule scan_literal_float[OF ok value_ends_number_ends[OF assms(2)]])
  have "\<exists>c cs. floatstr L x @ rest = c # cs \<and> c \<noteq> 34 \<and> c \<noteq> 123 \<and> c \<noteq> 91"
  proof (cases "match_number (float_repr L x) = Some (float_repr L x, True, [])")
    case True
    from match_number_head[OF True] obtain d ds where
      "is_digit d" "float_repr L x = d # ds \<or> float_repr L x = 45 # d # ds" by blast
    then show ?thesis by (auto simp: floatstr_def Let_def is_digit_def str_def)
  next
    case False
    then have "float_repr L x = str ''nan'' \<or> float_repr L x = str ''inf'' \<or> float_repr L x = str ''-inf''"
      using ok by (auto simp: is_float_repr_def)
    then show ?thesis by (auto simp: floatstr_def Let_def str_def)
  qed
  then obtain c cs where c: "floatstr L x @ rest = c # cs" "c \<noteq> 34" "c \<noteq> 123" "c \<noteq> 91" by blast
  show ?thesis using JFloat l c by simp
next
  case (JString s)
  have "scanstring (concat (map escape_char s) @ 34 # rest) = Some (s, rest)"
    by (rule scanstring_escaped)
  then show ?thesis using JString by (simp add: encode_basestring_def)
next
  case (JArray vs)
  then show ?thesis using assms(3) by simp
next
  case (JObject kvs)
  then show ?thesis using assms(4) by simp
qed

lemma atom_case:
  assumes "floats_ok L v" and "\<And>vs. v \<noteq> JArray vs" and "\<And>kvs. v \<noteq> JObject kvs"
  shows "\<forall>rest. value_ends rest \<longrightarrow>
           (\<exists>n0. \<forall>n\<ge>n0. scan_once L n (iterencode L ind level v @ rest) = Inr (reread L v, rest))"
proof (intro allI impI)
  fix rest assume e: "value_ends rest"
  have "\<forall>n\<ge>Suc 0. scan_once L n (iterencode L ind level v @ rest) = Inr (reread L v, rest)"
  proof (intro allI impI)
    fix n assume "Suc 0 \<le> n"
    then obtain m where "n = Suc m" by (cases n) auto
    then show "scan_once L n (iterencode L ind level v @ rest) = Inr (reread L v, rest)"
      using roundtrip_atom[OF assms(1) e assms(2,3)] by simp
  qed
  then show "\<exists>n0. \<forall>n\<ge>n0. scan_once L n (iterencode L ind level v @ rest) = Inr (reread L v, rest)"
    by blast
qed

lemma array_step:
  assumes "\<forall>n\<ge>n0. parse_array L n (X @ close_indent ind level @ 93 # rest) = Inr (vs', rest)"
    and "value_starts (X @ close_indent ind level @ 93 # rest)"
  shows "\<forall>n\<ge>Suc n0. scan_once L n ((91 # open_indent ind level @ X @ close_indent ind level @ [93]) @ rest)
           = Inr (JArray vs', rest)"
proof (intro allI impI)
  fix n assume "Suc n0 \<le> n"
  then obtain m where n: "n = Suc m" and m: "n0 \<le> m" by (cases n) auto
  let ?Y = "X @ close_indent ind level @ 93 # rest"
  obtain d ds where d: "?Y = d # ds" "d \<noteq> 93"
    using assms(2) by (auto simp: value_starts_def split: list.splits)
  have sk: "skip_ws (open_indent ind level @ ?Y) = d # ds"
    using skip_ws_spaces[OF open_indent_ws, of ind level ?Y] skip_ws_starts[OF assms(2)] d(1)
    by simp
  have p: "parse_array L m (d # ds) = Inr (vs', rest)"
    using assms(1) m d(1) by simp
  have "scan_once L (Suc m) (91 # open_indent ind level @ ?Y) = Inr (JArray vs', rest)"
    using sk p d(2) by simp
  then show "scan_once L n ((91 # open_indent ind level @ X @ close_indent ind level @ [93]) @ rest)
           = Inr (JArray vs', rest)"
    using n by simp
qed

lemma object_step:
  assumes "\<forall>n\<ge>n0. parse_object L n (X @ close_indent ind level @ 125 # rest) = Inr (kvs', rest)"
    and "X @ close_indent ind level @ 125 # rest = 34 # cs"
  shows "\<forall>n\<ge>Suc n0. scan_once L n ((123 # open_indent ind level @ X @ close_indent ind level @ [125]) @ rest)
           = Inr (JObject (dict_of_pairs kvs'), rest)"
proof (intro allI impI)
  fix n assume "Suc n0 \<le> n"
  then obtain m where n: "n = Suc m" and m: "n0 \<le> m" by (cases n) auto
  let ?Y = "X @ close_indent ind level @ 125 # rest"
  have st: "value_starts ?Y" unfolding assms(2) by (simp add: value_starts_def is_ws_def)
  have sk: "skip_ws (open_indent ind level @ ?Y) = 34 # cs"
    using skip_ws_spaces[OF open_indent_ws, of ind level ?Y] skip_ws_starts[OF st] assms(2)
    by simp
  have p: "parse_object L m (34 # cs) = Inr (kvs', rest)"
    using assms(1) m assms(2) by simp
  have "scan_once L (Suc m) (123 # open_indent ind level @ ?Y) = Inr (JObject (dict_of_pairs kvs'), rest)"
    using sk p by simp
  then show "scan_once L n ((123 # open_indent ind level @ X @ close_indent ind level @ [125]) @ rest)
           = Inr (JObject (dict_of_pairs kvs'), rest)"
    using n by simp
qed

lemma element_last:
  assumes "\<forall>n\<ge>n1. scan_once L n (E @ close_indent ind level @ 93 # rest) = Inr (v', close_indent ind level @ 93 # rest)"
  shows "\<forall>n\<ge>Suc n1. parse_array L n (E @ close_indent ind level @ 93 # rest) = Inr ([v'], rest)"
proof (intro allI impI)
  fix n assume "Suc n1 \<le> n"
  then obtain m where n: "n = Suc m" and m: "n1 \<le> m" by (cases n) auto
  have "scan_once L m (E @ close_indent ind level @ 93 # rest) = Inr (v', close_indent ind level @ 93 # rest)"
    using assms m by simp
  then show "parse_array L n (E @ close_indent ind level @ 93 # rest) = Inr ([v'], rest)"
    using n skip_ws_close(1)[of ind level rest] by simp
qed

lemma element_more:
  assumes "\<forall>n\<ge>n1. scan_once L n (E @ 44 # w @ Y) = Inr (v', 44 # w @ Y)"
    and "\<forall>n\<ge>n2. parse_array L n Y = Inr (vs', rest)"
    and "list_all is_ws w" and "value_starts Y"
  shows "\<forall>n\<ge>Suc (max n1 n2). parse_array L n (E @ 44 # w @ Y) = Inr (v' # vs', rest)"
proof (intro allI impI)
  fix n assume "Suc (max n1 n2) \<le> n"
  then obtain m where n: "n = Suc m" and m: "n1 \<le> m" "n2 \<le> m" by (cases n) auto
  have a: "scan_once L m (E @ 44 # w @ Y) = Inr (v', 44 # w @ Y)" using assms(1) m by simp
  have b: "parse_array L m Y = Inr (vs', rest)" using assms(2) m by simp
  have c: "skip_ws (44 # w @ Y) = 44 # w @ Y" by (simp add: skip_ws_def is_ws_def)
  have d: "skip_ws (w @ Y) = Y" using skip_ws_spaces[OF assms(3)] skip_ws_starts[OF assms(4)] by simp
  show "parse_array L n (E @ 44 # w @ Y) = Inr (v' # vs', rest)"
    using n a b c d by simp
qed

lemma key_prefix:
  "encode_basestring k @ str '': '' @ T = 34 # concat (map escape_char k) @ 34 # 58 # 32 # T"
  by (simp add: encode_basestring_def str_def)

lemma member_head:
  assumes "value_starts T"
  shows "parse_object L (Suc m) (encode_basestring k @ str '': '' @ T) =
           (case scan_once L m T of
              Inl e \<Rightarrow> Inl e
            | Inr (v, r2) \<Rightarrow>
                (case skip_ws r2 of
                   [] \<Rightarrow> Inl Invalid
                 | x # xs \<Rightarrow>
                     if x = 125 then Inr ([(k, v)], xs)
                     else if x = 44 then
                       (case parse_object L m (skip_ws xs) of
                          Inl e \<Rightarrow> Inl e
                        | Inr (kvs, r3) \<Rightarrow> Inr ((k, v) # kvs, r3))
                     else Inl Invalid))"
proof -
  have s: "scanstring (concat (map escape_char k) @ 34 # 58 # 32 # T) = Some (k, 58 # 32 # T)"
    by (rule scanstring_escaped)
  have w1: "skip_ws (58 # 32 # T) = 58 # 32 # T" by (simp add: skip_ws_def is_ws_def)
  have w2: "skip_ws (32 # T) = T"
    using skip_ws_starts[OF assms] by (simp add: skip_ws_def is_ws_def)
  show ?thesis
    unfolding key_prefix by (simp add: s w1 w2)
qed

lemma member_last:
  assumes "\<forall>n\<ge>n1. scan_once L n (E @ close_indent ind level @ 125 # rest)
             = Inr (v', close_indent ind level @ 125 # rest)"
    and "value_starts (E @ close_indent ind level @ 125 # rest)"
  shows "\<forall>n\<ge>Suc n1. parse_object L n (encode_basestring k @ str '': '' @ E @ close_indent ind level @ 125 # rest)
           = Inr ([(k, v')], rest)"
proof (intro allI impI)
  fix n assume "Suc n1 \<le> n"
  then obtain m where n: "n = Suc m" and m: "n1 \<le> m" by (cases n) auto
  have "scan_once L m (E @ close_indent ind level @ 125 # rest) = Inr (v', close_indent ind level @ 125 # rest)"
    using assms(1) m by simp
  then show "parse_object L n (encode_basestring k @ str '': '' @ E @ close_indent ind level @ 125 # rest)
           = Inr ([(k, v')], rest)"
    unfolding n member_head[OF assms(2)] using skip_ws_close(2)[of ind level rest] by simp
qed

lemma member_more:
  assumes "\<forall>n\<ge>n1. scan_once L n (E @ 44 # w @ Y) = Inr (v', 44 # w @ Y)"
    and "\<forall>n\<ge>n2. parse_object L n Y = Inr (kvs', rest)"
    and "list_all is_ws w" and "value_starts Y" and "value_starts (E @ 44 # w @ Y)"
  shows "\<forall>n\<ge>Suc (max n1 n2). parse_object L n (encode_basestring k @ str '': '' @ E @ 44 # w @ Y)
           = Inr ((k, v') # kvs', rest)"
proof (intro allI impI)
  fix n assume "Suc (max n1 n2) \<le> n"
  then obtain m where n: "n = Suc m" and m: "n1 \<le> m" "n2 \<le> m" by (cases n) auto
  have a: "scan_once L m (E @ 44 # w @ Y) = Inr (v', 44 # w @ Y)" using assms(1) m by simp
  have b: "parse_object L m Y = Inr (kvs', rest)" using assms(2) m by simp
  have c: "skip_ws (44 # w @ Y) = 44 # w @ Y" by (simp add: skip_ws_def is_ws_def)
  have d: "skip_ws (w @ Y) = Y" using skip_ws_spaces[OF assms(3)] skip_ws_starts[OF assms(4)] by simp
  show "parse_object L n (encode_basestring k @ str '': '' @ E @ 44 # w @ Y) = Inr ((k, v') # kvs', rest)"
    unfolding n member_head[OF assms(5)] using a b c d by simp
qed

lemma roundtrip:
  "floats_ok L v \<Longrightarrow>
     \<forall>rest. value_ends rest \<longrightarrow>
       (\<exists>n0. \<forall>n\<ge>n0. scan_once L n (iterencode L ind level v @ rest) = Inr (reread L v, rest))"
  "list_all (floats_ok L) vs \<Longrightarrow> vs \<noteq> [] \<Longrightarrow>
     \<forall>rest. \<exists>n0. \<forall>n\<ge>n0.
       parse_array L n (iterencode_list L ind level vs @ close_indent ind level @ 93 # rest)
         = Inr (reread_list L vs, rest)"
  "list_all (\<lambda>kv. floats_ok L (snd kv)) kvs \<Longrightarrow> kvs \<noteq> [] \<Longrightarrow>
     \<forall>rest. \<exists>n0. \<forall>n\<ge>n0.
       parse_object L n (iterencode_dict L ind level kvs @ close_indent ind level @ 125 # rest)
         = Inr (reread_dict L kvs, rest)"
proof (induction L ind level v and L ind level vs and L ind level kvs
       rule: iterencode_iterencode_list_iterencode_dict.induct)
  case (1 L ind level)
  then show ?case by (intro atom_case) simp_all
next
  case (2 L ind level b)
  then show ?case by (intro atom_case) simp_all
next
  case (3 L ind level i)
  then show ?case by (intro atom_case) simp_all
next
  case (4 L ind level x)
  then show ?case by (intro atom_case) simp_all
next
  case (5 L ind level s)
  then show ?case by (intro atom_case) simp_all
next
  case (6 L ind level vs)
  show ?case
  proof (cases "vs = []")
    case True
    have "\<forall>n\<ge>Suc 0. scan_once L n (iterencode L ind level (JArray vs) @ rest) = Inr (reread L (JArray vs), rest)" for rest
    proof (intro allI impI)
      fix n assume "Suc 0 \<le> n"
      then obtain m where "n = Suc m" by (cases n) auto
      then show "scan_once L n (iterencode L ind level (JArray vs) @ rest) = Inr (reread L (JArray vs), rest)"
        using True by (simp add: str_def skip_ws_def is_ws_def)
    qed
    then show ?thesis by blast
  next
    case False
    have ok: "list_all (floats_ok L) vs" using 6(2) by (simp add: floats_ok_simps)
    show ?thesis
    proof (intro allI impI)
      fix rest assume "value_ends rest"
      from 6(1)[OF False ok False] obtain n0 where
        n0: "\<forall>n\<ge>n0. parse_array L n (iterencode_list L ind level vs @ close_indent ind level @ 93 # rest)
               = Inr (reread_list L vs, rest)" by blast
      have st: "value_starts (iterencode_list L ind level vs @ close_indent ind level @ 93 # rest)"
        using iterencode_list_starts[OF False] ok by (simp add: list_all_iff floats_ok_def)
      have e: "iterencode L ind level (JArray vs) =
                 91 # open_indent ind level @ iterencode_list L ind level vs @ close_indent ind level @ [93]"
        using False by (simp add: str_def)
      show "\<exists>n0. \<forall>n\<ge>n0. scan_once L n (iterencode L ind level (JArray vs) @ rest) = Inr (reread L (JArray vs), rest)"
        unfolding e using array_step[OF n0 st] by auto
    qed
  qed
next
  case (7 L ind level kvs)
  show ?case
  proof (cases "kvs = []")
    case True
    have "\<forall>n\<ge>Suc 0. scan_once L n (iterencode L ind level (JObject kvs) @ rest) = Inr (reread L (JObject kvs), rest)" for rest
    proof (intro allI impI)
      fix n assume "Suc 0 \<le> n"
      then obtain m where "n = Suc m" by (cases n) auto
      then show "scan_once L n (iterencode L ind level (JObject kvs) @ rest) = Inr (reread L (JObject kvs), rest)"
        using True by (simp add: str_def skip_ws_def is_ws_def dict_of_pairs_def)
    qed
    then show ?thesis by blast
  next
    case False
    have ok: "list_all (\<lambda>kv. floats_ok L (snd kv)) kvs" using 7(2) by (simp add: floats_ok_simps)
    show ?thesis
    proof (intro allI impI)
      fix rest assume "value_ends rest"
      from 7(1)[OF False ok False] obtain n0 where
        n0: "\<forall>n\<ge>n0. parse_object L n (iterencode_dict L ind level kvs @ close_indent ind level @ 125 # rest)
               = Inr (reread_dict L kvs, rest)" by blast
      obtain cs where st: "iterencode_dict L ind level kvs @ close_indent ind level @ 125 # rest = 34 # cs"
        using iterencode_dict_starts[OF False] by blast
      have e: "iterencode L ind level (JObject kvs) =
                 123 # open_indent ind level @ iterencode_dict L ind level kvs @ close_indent ind level @ [125]"
        using False by (simp add: str_def)
      show "\<exists>n0. \<forall>n\<ge>n0. scan_once L n (iterencode L ind level (JObject kvs) @ rest) = Inr (reread L (JObject kvs), rest)"
        unfolding e using object_step[OF n0 st] by auto
    qed
  qed
next
  case (8 L ind level)
  then show ?case by simp
next
  case (9 L ind level v vs)
  have okv: "floats_ok L v" and okvs: "list_all (floats_ok L) vs" using 9(3) by simp_all
  show ?case
  proof (cases "vs = []")
    case True
    show ?thesis
    proof
      fix rest
      have "value_ends (close_indent ind level @ 93 # rest)" by (rule close_indent_ends)
      with 9(1)[OF okv] obtain n1 where
        n1: "\<forall>n\<ge>n1. scan_once L n (iterencode L ind (level + 1) v @ close_indent ind level @ 93 # rest)
               = Inr (reread L v, close_indent ind level @ 93 # rest)" by blast
      show "\<exists>n0. \<forall>n\<ge>n0. parse_array L n (iterencode_list L ind level (v # vs) @ close_indent ind level @ 93 # rest)
               = Inr (reread_list L (v # vs), rest)"
        using element_last[OF n1] True by auto
    qed
  next
    case False
    obtain w where w: "separator ind level = 44 # w" "list_all is_ws w"
      using separator_shape by blast
    show ?thesis
    proof
      fix rest
      let ?Y = "iterencode_list L ind level vs @ close_indent ind level @ 93 # rest"
      from 9(2)[OF False okvs False] obtain n2 where
        n2: "\<forall>n\<ge>n2. parse_array L n ?Y = Inr (reread_list L vs, rest)" by blast
      have "value_ends (44 # w @ ?Y)" by (simp add: value_ends_def)
      with 9(1)[OF okv] obtain n1 where
        n1: "\<forall>n\<ge>n1. scan_once L n (iterencode L ind (level + 1) v @ 44 # w @ ?Y)
               = Inr (reread L v, 44 # w @ ?Y)" by blast
      have st: "value_starts ?Y"
        using iterencode_list_starts[OF False] okvs by (simp add: list_all_iff floats_ok_def)
      have e: "iterencode_list L ind level (v # vs) @ close_indent ind level @ 93 # rest
                 = iterencode L ind (level + 1) v @ 44 # w @ ?Y"
        using False w(1) by simp
      show "\<exists>n0. \<forall>n\<ge>n0. parse_array L n (iterencode_list L ind level (v # vs) @ close_indent ind level @ 93 # rest)
               = Inr (reread_list L (v # vs), rest)"
        unfolding e using element_more[OF n1 n2 w(2) st] by auto
    qed
  qed
next
  case (10 L ind level)
  then show ?case by simp
next
  case (11 L ind level k v kvs)
  have okv: "floats_ok L v" and okvs: "list_all (\<lambda>kv. floats_ok L (snd kv)) kvs"
    using 11(3) by simp_all
  show ?case
  proof (cases "kvs = []")
    case True
    show ?thesis
    proof
      fix rest
      have "value_ends (close_indent ind level @ 125 # rest)" by (rule close_indent_ends)
      with 11(1)[OF okv] obtain n1 where
        n1: "\<forall>n\<ge>n1. scan_once L n (iterencode L ind (level + 1) v @ close_indent ind level @ 125 # rest)
               = Inr (reread L v, close_indent ind level @ 125 # rest)" by blast
      have st: "value_starts (iterencode L ind (level + 1) v @ close_indent ind level @ 125 # rest)"
        using iterencode_starts okv by (simp add: floats_ok_def)
      show "\<exists>n0. \<forall>n\<ge>n0. parse_object L n (iterencode_dict L ind level ((k, v) # kvs) @ close_indent ind level @ 125 # rest)
               = Inr (reread_dict L ((k, v) # kvs), rest)"
        using member_last[OF n1 st, of k] True by auto
    qed
  next
    case False
    obtain w where w: "separator ind level = 44 # w" "list_all is_ws w"
      using separator_shape by blast
    show ?thesis
    proof
      fix rest
      let ?Y = "iterencode_dict L ind level kvs @ close_indent ind level @ 125 # rest"
      from 11(2)[OF False okvs False] obtain n2 where
        n2: "\<forall>n\<ge>n2. parse_object L n ?Y = Inr (reread_dict L kvs, rest)" by blast
      have "value_ends (44 # w @ ?Y)" by (simp add: value_ends_def)
      with 11(1)[OF okv] obtain n1 where
        n1: "\<forall>n\<ge>n1. scan_once L n (iterencode L ind (level + 1) v @ 44 # w @ ?Y)
               = Inr (reread L v, 44 # w @ ?Y)" by blast
      obtain cs where "?Y = 34 # cs" using iterencode_dict_starts[OF False] by blast
      then have st: "value_starts ?Y" by (simp add: value_starts_def is_ws_def)
      have st2: "value_starts (iterencode L ind (level + 1) v @ 44 # w @ ?Y)"
        using iterencode_starts okv by (simp add: floats_ok_def)
      have e: "iterencode_dict L ind level ((k, v) # kvs) @ close_indent ind level @ 125 # rest
                 = encode_basestring k @ str '': '' @ iterencode L ind (level + 1) v @ 44 # w @ ?Y"
        using False w(1) by simp
      show "\<exists>n0. \<forall>n\<ge>n0. parse_object L n (iterencode_dict L ind level ((k, v) # kvs) @ close_indent ind level @ 125 # rest)
               = Inr (reread_dict L ((k, v) # kvs), rest)"
        unfolding e using member_more[OF n1 n2 w(2) st st2, of k] by auto
    qed
  qed
qed

lemma loads_dumps:
  assumes "floats_ok L v" and "tail = [] \<or> tail = [10]"
  shows "json_loads L (json_dumps L ind v @ tail) = Inr (reread L v)"
proof -
  let ?s = "iterencode L ind 0 v @ tail"
  have e: "value_ends tail" using assms(2) by (auto simp: value_ends_def)
  have w: "skip_ws tail = []" using assms(2) by (auto simp: skip_ws_def is_ws_def)
  have st: "value_starts ?s" using iterencode_starts assms(1) by (simp add: floats_ok_def)
  then obtain c cs where c: "?s = c # cs" "c \<noteq> 0xFEFF"
    by (auto simp: value_starts_def split: list.splits)
  have bom: "take 1 ?s \<noteq> [0xFEFF]" unfolding c(1) using c(2) by simp
  have sk: "skip_ws ?s = ?s" by (rule skip_ws_starts[OF st])
  from roundtrip(1)[OF assms(1), of ind 0] e obtain n0 where
    n0: "\<forall>n\<ge>n0. scan_once L n ?s = Inr (reread L v, tail)" by blast
  let ?n1 = "Suc (2 * length ?s)"
  have ne: "scan_once L ?n1 ?s \<noteq> Inl Exhausted" by (rule scan_not_exhausted(1)) simp
  have "scan_once L (max n0 ?n1) ?s = scan_once L ?n1 ?s"
    by (rule scan_once_fuel_mono[OF _ ne]) simp
  moreover have "scan_once L (max n0 ?n1) ?s = Inr (reread L v, tail)" using n0 by simp
  ultimately have "scan_once L ?n1 ?s = Inr (reread L v, tail)" by simp
  then show ?thesis
    unfolding json_loads_def json_dumps_def using bom sk w by simp
qed

lemma dumps_summary_pretty:
  \<open>json_dumps L (Some 2) (JObject [(str ''ratingAverage'', av), (str ''totalNumberOfRatings'', tv),
                                    (str ''ratingCounts'', cv)]) =
     str ''{'' @ [10, 32, 32] @ str ''"ratingAverage": '' @ iterencode L (Some 2) 1 av
     @ str '','' @ [10, 32, 32] @ str ''"totalNumberOfRatings": '' @ iterencode L (Some 2) 1 tv
     @ str '','' @ [10, 32, 32] @ str ''"ratingCounts": '' @ iterencode L (Some 2) 1 cv
     @ [10] @ str ''}''\<close>
  by (simp add: json_dumps_def open_indent_def close_indent_def separator_def newline_indent_def
        encode_basestring_def escape_char_def str_def numeral_2_eq_2)

lemma fetch_raises_RuntimeError:
  assumes "fetch_product_ratings L net app ctry = Inl e"
  shows "\<exists>m. e = RuntimeError m"
proof (cases "net (product_url app ctry)")
  case (RequestException t)
  then show ?thesis using assms by (auto simp: fetch_product_ratings_def)
next
  case (Response code body)
  show ?thesis
  proof (cases "raises_for_status code")
    case True
    then show ?thesis using assms Response by (auto simp: fetch_product_ratings_def)
  next
    case False
    show ?thesis
    proof (cases "extract_product_ratings L body")
      case (Inl x)
      then have "e = x" using assms Response False by (simp add: fetch_product_ratings_def)
      then show ?thesis using extract_raises_RuntimeError[OF Inl] by simp
    next
      case (Inr data)
      from extract_success[OF Inr] have v: "validate (JObject data) = Inr data" by blast
      then have "filter (\<lambda>key. dict_get data key = None) REQUIRED_KEYS = []"
        by (auto simp: validate_def Let_def split: if_splits)
      then have "\<forall>key\<in>set REQUIRED_KEYS. dict_get data key \<noteq> None"
        by (simp add: filter_empty_conv)
      then have "dict_get data (str ''ratingAverage'') \<noteq> None"
        "dict_get data (str ''totalNumberOfRatings'') \<noteq> None"
        "dict_get data (str ''ratingCounts'') \<noteq> None"
        by (simp_all add: REQUIRED_KEYS_def)
      then have "\<exists>s. fetch_product_ratings L net app ctry = Inr s"
        using Response False Inr by (auto simp: fetch_product_ratings_def subscript_def)
      then show ?thesis using assms by simp
    qed
  qed
qed

text \<open>What the check of \<open>ratingCounts\<close> decides, when no key is missing.\<close>

lemma validate_rating_counts:
  assumes "filter (\<lambda>key. dict_get d key = None) REQUIRED_KEYS = []"
  shows "validate (JObject d) =
           (case dict_get d (str ''ratingCounts'') of
              Some (JArray xs) \<Rightarrow> if length xs = 5 then Inr d else Inl SHAPE_ERROR
            | _ \<Rightarrow> Inl SHAPE_ERROR)"
proof -
  have "\<forall>key\<in>set REQUIRED_KEYS. dict_get d key \<noteq> None"
    using assms by (simp add: filter_empty_conv)
  then have "dict_get d (str ''ratingCounts'') \<noteq> None" by (simp add: REQUIRED_KEYS_def)
  then show ?thesis
    using assms by (auto simp: validate_def Let_def split: option.splits json.splits)
qed

lemma replicate_2: "replicate 2 x = [x, x]"
  by (simp add: numeral_2_eq_2)

lemma replicate_4: "replicate 4 x = [x, x, x, x]"
  by (simp add: eval_nat_numeral)

lemma pretty_example:
  \<open>json_dumps example_lib (Some 2) (JObject (example_summary example_lib)) =
     str ''{'' @ [10] @ str ''  "ratingAverage": 4.5,'' @ [10]
     @ str ''  "totalNumberOfRatings": 120,'' @ [10]
     @ str ''  "ratingCounts": ['' @ [10]
     @ str ''    80,'' @ [10] @ str ''    20,'' @ [10] @ str ''    10,'' @ [10]
     @ str ''    5,'' @ [10] @ str ''    5'' @ [10] @ str ''  ]'' @ [10] @ str ''}''\<close>
  by (simp add: example_summary_def example_lib_def dumps_eval replicate_2 replicate_4)

section \<open>Writing the record to standard output\<close>

lemma encodes_example_output: "encodes L example_output"
  by (simp add: encodes_def example_output_def str_def)

lemma main_summary:
  assumes "fetch_product_ratings L net (app_id a) (country a) = Inr summary"
  shows "main L net (Namespace a) =
     (if encodes L (json_dumps L (if pretty a then Some 2 else None) (JObject summary)) then
        \<lparr>stdout = json_dumps L (if pretty a then Some 2 else None) (JObject summary)
                  @ (if pretty a then [10] else []),
         stderr = [], exit_status = 0\<rparr>
      else
        \<lparr>stdout = [],
         stderr = uncaught L (json_dumps L (if pretty a then Some 2 else None) (JObject summary)),
         exit_status = 1\<rparr>)"
  using assms by (simp add: main_def print_stdout_def encodes_def)

lemma main_failure:
  assumes "fetch_product_ratings L net (app_id a) (country a) = Inl exc"
  shows "main L net (Namespace a) =
     \<lparr>stdout = [], stderr = str ''error: '' @ exc_str exc @ [10], exit_status = 1\<rparr>"
  using assms by (simp add: main_def)

text \<open>A run on an accepted command line that ends with status 0 has written the record.\<close>

lemma exit_status_0:
  assumes "exit_status (main L net (Namespace a)) = 0"
  shows "\<exists>summary. fetch_product_ratings L net (app_id a) (country a) = Inr summary
           \<and> encodes L (json_dumps L (if pretty a then Some 2 else None) (JObject summary))
           \<and> main L net (Namespace a) =
               \<lparr>stdout = json_dumps L (if pretty a then Some 2 else None) (JObject summary)
                         @ (if pretty a then [10] else []),
                stderr = [], exit_status = 0\<rparr>"
proof (cases "fetch_product_ratings L net (app_id a) (country a)")
  case (Inl exc)
  then show ?thesis using assms by (simp add: main_failure)
next
  case (Inr summary)
  have "encodes L (json_dumps L (if pretty a then Some 2 else None) (JObject summary))"
    using assms unfolding main_summary[OF Inr] by (simp split: if_splits)
  then show ?thesis using Inr by (simp add: main_summary[OF Inr])
qed

lemma run_served_example:
  assumes "\<not> raises_for_status code"
  shows "main example_lib (serve code example_block) (example_args False) =
           \<lparr>stdout = example_output, stderr = [], exit_status = 0\<rparr>"
proof -
  let ?a = "\<lparr>app_id = str ''1234567890'', country = str ''ua'', pretty = False\<rparr>"
  have f: "fetch_product_ratings example_lib (serve code example_block) (app_id ?a) (country ?a)
             = Inr (example_summary example_lib)"
    by (rule fetch_served_example[OF assms])
  have d: "json_dumps example_lib None (JObject (example_summary example_lib)) = example_output"
    by (rule dumps_example) (simp add: example_lib_def)
  show ?thesis
    unfolding example_args_def main_summary[OF f]
    using d encodes_example_output[of example_lib] by simp
qed

text \<open>
  The block with the lone surrogate: extraction succeeds, and the text of the record
  is one that UTF-8 cannot encode.
\<close>

lemma extract_surrogate: "extract_product_ratings example_lib surrogate_body = Inr surrogate_summary"
  by (simp add: extract_product_ratings_def surrogate_body_def surrogate_summary_def search_eval
       loads_eval validate_def REQUIRED_KEYS_def dict_get_def example_lib_def hex_val_def
       del: scan_once.simps parse_array.simps parse_object.simps)

lemma fetch_surrogate:
  "fetch_product_ratings example_lib (serve 200 surrogate_body) app ctry = Inr surrogate_summary"
proof -
  have "subscript (surrogate_summary :: (pystr \<times> pystr json) list) (str ''ratingAverage'')
          = Inr (JString [0xD800])"
    "subscript (surrogate_summary :: (pystr \<times> pystr json) list) (str ''totalNumberOfRatings'')
          = Inr (JInt 120)"
    "subscript (surrogate_summary :: (pystr \<times> pystr json) list) (str ''ratingCounts'')
          = Inr (JArray [JInt 80, JInt 20, JInt 10, JInt 5, JInt 5])"
    by (simp_all add: subscript_def dict_get_def surrogate_summary_def str_def)
  then show ?thesis
    using extract_surrogate
    by (simp add: fetch_product_ratings_def serve_def raises_for_status_def surrogate_summary_def)
qed

lemma dumps_surrogate:
  "\<not> encodes example_lib (json_dumps example_lib None (JObject surrogate_summary))"
  "\<not> encodes example_lib (json_dumps example_lib (Some 2) (JObject surrogate_summary))"
  by (simp_all add: surrogate_summary_def encodes_def example_lib_def dumps_eval
        replicate_2 replicate_4)

lemma run_surrogate:
  "main example_lib (serve 200 surrogate_body) (example_args p) =
     \<lparr>stdout = [],
      stderr = str ''Traceback (most recent call last):'' @ [10]
               @ str ''UnicodeEncodeError: surrogates not allowed'' @ [10],
      exit_status = 1\<rparr>"
proof -
  let ?a = "\<lparr>app_id = str ''1234567890'', country = str ''ua'', pretty = p\<rparr>"
  have f: "fetch_product_ratings example_lib (serve 200 surrogate_body) (app_id ?a) (country ?a)
             = Inr surrogate_summary"
    by (rule fetch_surrogate)
  show ?thesis
    unfolding example_args_def main_summary[OF f]
    using dumps_surrogate by (cases p) (simp_all add: uncaught_def example_lib_def)
qed

text \<open>
  When standard output can encode the record, the output with \<open>--pretty\<close> and the
  output without it decode to the same value, the summary with every float read back
  from its text; the pretty output is indented and ends with a line break, the compact
  output ends with the closing brace.
\<close>

lemma pretty_and_compact_decode:
  assumes "fetch_product_ratings L net (app_id a) (country a) = Inr summary"
    and "floats_ok L (JObject summary)"
    and "encodes L (json_dumps L (Some 2) (JObject summary))"
    and "encodes L (json_dumps L None (JObject summary))"
  shows \<open>\<exists>av tv cv.
     json_loads L (stdout (main L net (Namespace (a\<lparr>pretty := True\<rparr>)))) = Inr (reread L (JObject summary))
     \<and> json_loads L (stdout (main L net (Namespace (a\<lparr>pretty := False\<rparr>)))) = Inr (reread L (JObject summary))
     \<and> stdout (main L net (Namespace (a\<lparr>pretty := True\<rparr>))) =
         str ''{'' @ [10, 32, 32] @ str ''"ratingAverage": '' @ iterencode L (Some 2) 1 av
         @ str '','' @ [10, 32, 32] @ str ''"totalNumberOfRatings": '' @ iterencode L (Some 2) 1 tv
         @ str '','' @ [10, 32, 32] @ str ''"ratingCounts": '' @ iterencode L (Some 2) 1 cv
         @ [10] @ str ''}'' @ [10]
     \<and> stdout (main L net (Namespace (a\<lparr>pretty := False\<rparr>))) =
         str ''{"ratingAverage": '' @ iterencode L None 1 av
         @ str '', "totalNumberOfRatings": '' @ iterencode L None 1 tv
         @ str '', "ratingCounts": '' @ iterencode L None 1 cv @ str ''}''
     \<and> last (stdout (main L net (Namespace (a\<lparr>pretty := True\<rparr>)))) = 10
     \<and> last (stdout (main L net (Namespace (a\<lparr>pretty := False\<rparr>)))) = 125\<close>
proof -
  from fetch_summary[OF assms(1)] obtain av tv cv where
    s: "summary = [(str ''ratingAverage'', av), (str ''totalNumberOfRatings'', tv),
                   (str ''ratingCounts'', cv)]" by blast
  have p: "stdout (main L net (Namespace (a\<lparr>pretty := True\<rparr>))) = json_dumps L (Some 2) (JObject summary) @ [10]"
    and c: "stdout (main L net (Namespace (a\<lparr>pretty := False\<rparr>))) = json_dumps L None (JObject summary) @ []"
    using assms(1,3,4) by (simp_all add: main_summary[where summary = summary])
  have lp: "json_loads L (json_dumps L (Some 2) (JObject summary) @ [10]) = Inr (reread L (JObject summary))"
    by (rule loads_dumps[OF assms(2)]) simp
  have lc: "json_loads L (json_dumps L None (JObject summary) @ []) = Inr (reread L (JObject summary))"
    by (rule loads_dumps[OF assms(2)]) simp
  have e1: "last (json_dumps L (Some 2) (JObject summary) @ [10]) = 10" by simp
  have e2: "last (json_dumps L None (JObject summary) @ []) = 125"
    unfolding s dumps_summary by (simp add: str_def)
  have f1: \<open>json_dumps L (Some 2) (JObject summary) @ [10] =
         str ''{'' @ [10, 32, 32] @ str ''"ratingAverage": '' @ iterencode L (Some 2) 1 av
         @ str '','' @ [10, 32, 32] @ str ''"totalNumberOfRatings": '' @ iterencode L (Some 2) 1 tv
         @ str '','' @ [10, 32, 32] @ str ''"ratingCounts": '' @ iterencode L (Some 2) 1 cv
         @ [10] @ str ''}'' @ [10]\<close>
    unfolding s dumps_summary_pretty by simp
  have f2: \<open>json_dumps L None (JObject summary) @ [] =
         str ''{"ratingAverage": '' @ iterencode L None 1 av
         @ str '', "totalNumberOfRatings": '' @ iterencode L None 1 tv
         @ str '', "ratingCounts": '' @ iterencode L None 1 cv @ str ''}''\<close>
    unfolding s dumps_summary by simp
  show ?thesis
    unfolding p c using lp lc e1 e2 f1 f2 by blast
qed

section \<open>Claims\<close>

text \<open>
  C1 (as amended). For every response that \<open>raise_for_status\<close> accepts and whose body
  contains the example block at the first place where the marker pattern matches (no
  position before the block starts a match), and for an interpreter that writes the float
  of the literal \<open>4.5\<close> as \<open>4.5\<close>, the run without \<open>--pretty\<close> writes exactly the
  example record to standard output, with the keys in the order \<open>ratingAverage\<close>,
  \<open>totalNumberOfRatings\<close>, \<open>ratingCounts\<close>, writes nothing to standard error and ends
  with status 0.
\<close>

theorem C1_example_run:
  assumes "net (product_url (app_id a) (country a)) = Response code (pre @ example_block @ post)"
    and "\<not> raises_for_status code"
    and "\<forall>i<length pre. match_at (drop i (pre @ example_block @ post)) = None"
    and "float_repr L (float_of L (str ''4.5'')) = str ''4.5''"
    and "\<not> pretty a"
  shows \<open>main L net (Namespace a) =
           \<lparr>stdout = str ''{"ratingAverage": 4.5, "totalNumberOfRatings": 120, "ratingCounts": [80, 20, 10, 5, 5]}'',
            stderr = [], exit_status = 0\<rparr>\<close>
proof -
  have "PATTERN_search (pre @ example_block @ post) = PATTERN_search (example_block @ post)"
    by (rule search_skip[OF assms(3)])
  then have f: "fetch_product_ratings L net (app_id a) (country a) = Inr (example_summary L)"
    by (rule fetch_example[where net = net and post = post, OF assms(1,2)])
  have "main L net (Namespace a) = \<lparr>stdout = example_output, stderr = [], exit_status = 0\<rparr>"
    unfolding main_summary[OF f]
    using assms(5) dumps_example[OF assms(4)] encodes_example_output[of L] by simp
  then show ?thesis by (simp only: example_output_def)
qed

theorem C1_example_run_witness:
  \<open>main example_lib (serve 200 (str ''<html>'' @ example_block @ str ''</html>'')) (example_args False) =
     \<lparr>stdout = str ''{"ratingAverage": 4.5, "totalNumberOfRatings": 120, "ratingCounts": [80, 20, 10, 5, 5]}'',
      stderr = [], exit_status = 0\<rparr>\<close>
proof -
  let ?a = "\<lparr>app_id = str ''1234567890'', country = str ''ua'', pretty = False\<rparr>"
  have h1: "serve 200 (str ''<html>'' @ example_block @ str ''</html>'') (product_url (app_id ?a) (country ?a))
            = Response 200 (str ''<html>'' @ example_block @ str ''</html>'')"
    by (simp add: serve_def)
  have h2: "\<not> raises_for_status 200" by (simp add: raises_for_status_def)
  have h3: "\<forall>i<length (str ''<html>''). match_at (drop i (str ''<html>'' @ example_block @ str ''</html>'')) = None"
  proof (intro allI impI)
    fix i assume "i < length (str ''<html>'')"
    moreover have "34 \<notin> set (str ''<html>'')" by (simp add: str_def)
    ultimately show "match_at (drop i (str ''<html>'' @ example_block @ str ''</html>'')) = None"
      by (rule no_quote_no_match[rotated])
  qed
  have h4: "float_repr example_lib (float_of example_lib (str ''4.5'')) = str ''4.5''"
    by (simp add: example_lib_def)
  have h5: "\<not> pretty ?a" by simp
  show ?thesis
    unfolding example_args_def
    by (rule C1_example_run[where net = "serve 200 (str ''<html>'' @ example_block @ str ''</html>'')"
          and a = ?a and L = example_lib, OF h1 h2 h3 h4 h5])
qed

text \<open>
  C1 as it is stated, for every body that contains the block, fails on a body in
  which an earlier block matches first: there the record of the earlier block is the one
  that is decoded.
\<close>

theorem C1_earlier_block_counterexample:
  \<open>shadowed_body = str ''"contentType":"productRatings","marker":null,"items":[{}]'' @ example_block
   \<and> main example_lib (serve 200 shadowed_body) (example_args False) =
       \<lparr>stdout = [],
        stderr = str ''error: Missing expected keys in productRatings block: ratingAverage, totalNumberOfRatings, ratingCounts'' @ [10],
        exit_status = 1\<rparr>\<close>
proof -
  have s: \<open>PATTERN_search shadowed_body = Some (str ''{}'')\<close>
    by (simp add: shadowed_body_def search_eval)
  have l: "json_loads example_lib (str ''['' @ str ''{}'' @ str '']'') = Inr (JArray [JObject []])"
    by (simp add: loads_eval del: scan_once.simps parse_array.simps parse_object.simps)
  have "extract_product_ratings example_lib shadowed_body =
     Inl (RuntimeError (str ''Missing expected keys in productRatings block: ratingAverage, totalNumberOfRatings, ratingCounts''))"
    unfolding extract_product_ratings_def s
    by (simp only: option.case l sum.case subscript0.simps)
       (simp add: validate_def REQUIRED_KEYS_def dict_get_def str_def)
  then have "main example_lib (serve 200 shadowed_body) (example_args False) =
       \<lparr>stdout = [],
        stderr = str ''error: Missing expected keys in productRatings block: ratingAverage, totalNumberOfRatings, ratingCounts'' @ [10],
        exit_status = 1\<rparr>"
    by (simp add: main_def fetch_product_ratings_def serve_def example_args_def raises_for_status_def str_def)
  then show ?thesis by (simp only: shadowed_body_def simp_thms)
qed



text \<open>
  C3 (as amended). For every invocation without \<open>--pretty\<close> that ends with status 0, standard
  output is the JSON record on a single line: an opening brace, the three keys each
  followed by a colon and a space and its value, separated by a comma and a space, and a
  closing brace. It contains no line break (the interpreter's float texts having none)
  and nothing follows the closing brace: there is no trailing newline. Standard error is
  empty.
\<close>

theorem C3_compact_output:
  assumes "exit_status (main L net (Namespace a)) = 0"
    and "\<not> pretty a"
    and "\<forall>summary. fetch_product_ratings L net (app_id a) (country a) = Inr summary \<longrightarrow>
           (\<forall>x\<in>set_json (JObject summary). 10 \<notin> set (float_repr L x))"
  shows \<open>\<exists>av tv cv.
           fetch_product_ratings L net (app_id a) (country a) =
             Inr [(str ''ratingAverage'', av), (str ''totalNumberOfRatings'', tv),
                  (str ''ratingCounts'', cv)]
           \<and> stdout (main L net (Namespace a)) =
               str ''{"ratingAverage": '' @ iterencode L None 1 av
               @ str '', "totalNumberOfRatings": '' @ iterencode L None 1 tv
               @ str '', "ratingCounts": '' @ iterencode L None 1 cv @ str ''}''
           \<and> 10 \<notin> set (stdout (main L net (Namespace a)))
           \<and> last (stdout (main L net (Namespace a))) = 125
           \<and> stderr (main L net (Namespace a)) = []\<close>
proof -
  from exit_status_0[OF assms(1)] assms(2) obtain summary where
    f: "fetch_product_ratings L net (app_id a) (country a) = Inr summary"
    and r: "main L net (Namespace a) =
              \<lparr>stdout = json_dumps L None (JObject summary), stderr = [], exit_status = 0\<rparr>"
    by auto
  from fetch_summary[OF f] obtain av tv cv where
    s: "summary = [(str ''ratingAverage'', av), (str ''totalNumberOfRatings'', tv),
                   (str ''ratingCounts'', cv)]" by blast
  have fl: "\<forall>x\<in>set_json (JObject summary). 10 \<notin> set (float_repr L x)"
    using assms(3)[THEN spec, of summary] f by (rule mp)
  have out: "stdout (main L net (Namespace a)) = json_dumps L None (JObject summary)"
    and err: "stderr (main L net (Namespace a)) = []"
    unfolding r by simp_all
  have "10 \<notin> set (json_dumps L None (JObject summary))"
    unfolding json_dumps_def by (rule iterencode_single_line(1)[OF fl refl])
  moreover have "last (json_dumps L None (JObject summary)) = 125"
    unfolding s dumps_summary by (simp add: str_def)
  ultimately show ?thesis
    unfolding out err using dumps_summary[of L av tv cv] s f by auto
qed

theorem C3_compact_output_witness:
  \<open>exit_status (main example_lib (serve 200 example_block) (example_args False)) = 0
   \<and> stdout (main example_lib (serve 200 example_block) (example_args False)) =
       str ''{"ratingAverage": 4.5, "totalNumberOfRatings": 120, "ratingCounts": [80, 20, 10, 5, 5]}''
   \<and> 10 \<notin> set (stdout (main example_lib (serve 200 example_block) (example_args False)))
   \<and> last (stdout (main example_lib (serve 200 example_block) (example_args False))) = 125
   \<and> stderr (main example_lib (serve 200 example_block) (example_args False)) = []\<close>
proof -
  let ?a = "\<lparr>app_id = str ''1234567890'', country = str ''ua'', pretty = False\<rparr>"
  let ?net = "serve 200 example_block"
  have ok: "\<not> raises_for_status 200" by (simp add: raises_for_status_def)
  have m: "main example_lib ?net (Namespace ?a) =
             \<lparr>stdout = example_output, stderr = [], exit_status = 0\<rparr>"
    using run_served_example[OF ok] by (simp only: example_args_def)
  have h1: "exit_status (main example_lib ?net (Namespace ?a)) = 0" unfolding m by simp
  have h2: "\<not> pretty ?a" by simp
  have f: "fetch_product_ratings example_lib ?net (app_id ?a) (country ?a) = Inr (example_summary example_lib)"
    by (rule fetch_served_example[OF ok])
  have h3: "\<forall>summary. fetch_product_ratings example_lib ?net (app_id ?a) (country ?a) = Inr summary \<longrightarrow>
              (\<forall>x\<in>set_json (JObject summary). 10 \<notin> set (float_repr example_lib x))"
    unfolding f by (simp add: example_summary_def example_lib_def str_def)
  from C3_compact_output[where net = ?net and a = ?a and L = example_lib, OF h1 h2 h3]
  obtain av tv cv where
    n: "10 \<notin> set (stdout (main example_lib ?net (Namespace ?a)))"
    and l: "last (stdout (main example_lib ?net (Namespace ?a))) = 125"
    and e: "stderr (main example_lib ?net (Namespace ?a)) = []" by blast
  have o: "stdout (main example_lib ?net (Namespace ?a)) = example_output" unfolding m by simp
  from h1 o n l e show ?thesis by (simp only: example_args_def example_output_def simp_thms)
qed

text \<open>
  C3 as it is stated, no whitespace in the compact output, fails on the example run:
  \<open>json.dumps\<close> is called with its default separators, which have a space.
\<close>

theorem C3_space_counterexample:
  "exit_status (main example_lib (serve 200 example_block) (example_args False)) = 0
   \<and> 32 \<in> set (stdout (main example_lib (serve 200 example_block) (example_args False)))"
proof -
  have "\<not> raises_for_status 200" by (simp add: raises_for_status_def)
  then have "main example_lib (serve 200 example_block) (example_args False)
      = \<lparr>stdout = example_output, stderr = [], exit_status = 0\<rparr>"
    by (rule run_served_example)
  then show ?thesis by (simp add: example_output_def str_def)
qed

text \<open>
  C4. The check of \<open>ratingCounts\<close> is \<open>isinstance(rating_counts, list)\<close> and
  \<open>len(rating_counts) != 5\<close>; the entries are not looked at. A record whose
  \<open>ratingCounts\<close> is a list of five strings passes the check that the program's own
  error text describes as "must be a list of five integers", and extraction returns it.
\<close>

theorem C4_five_strings_accepted:
  \<open>extract_product_ratings example_lib nonnumeric_body = Inr
     [(str ''ratingAverage'', JFloat (str ''4.5'')), (str ''totalNumberOfRatings'', JInt 120),
      (str ''ratingCounts'', JArray [JString (str ''a''), JString (str ''b''), JString (str ''c''),
                                    JString (str ''d''), JString (str ''e'')])]\<close>
  by (simp add: extract_product_ratings_def nonnumeric_body_def search_eval loads_eval validate_def
       REQUIRED_KEYS_def dict_get_def example_lib_def
       del: scan_once.simps parse_array.simps parse_object.simps)

text \<open>
  C5. When the decoded record lacks one or more of the three required fields
  \<open>ratingAverage\<close>, \<open>totalNumberOfRatings\<close> and \<open>ratingCounts\<close>, extraction fails with
  the error "Missing expected keys in productRatings block: " followed by the names of
  the missing fields, separated by a comma and a space: all of the missing ones, in the
  order above, and no other name.
\<close>

theorem C5_missing_keys:
  assumes "PATTERN_search body = Some block"
    and "json_loads L (str ''['' @ block @ str '']'') = Inr (JArray (JObject d # others))"
    and "\<exists>key. key \<in> set REQUIRED_KEYS \<and> dict_get d key = None"
  shows "\<exists>missing.
           extract_product_ratings L body =
             Inl (RuntimeError (str ''Missing expected keys in productRatings block: ''
                                @ join (str '', '') missing))
           \<and> missing = filter (\<lambda>key. dict_get d key = None) REQUIRED_KEYS
           \<and> missing \<noteq> []
           \<and> set missing = {key. key \<in> set REQUIRED_KEYS \<and> dict_get d key = None}"
proof -
  let ?m = "filter (\<lambda>key. dict_get d key = None) REQUIRED_KEYS"
  have ne: "?m \<noteq> []" using assms(3) by (auto simp: filter_empty_conv)
  have "validate (JObject d) =
          Inl (RuntimeError (str ''Missing expected keys in productRatings block: ''
                             @ join (str '', '') ?m))"
    using ne by (simp add: validate_def Let_def)
  then have "extract_product_ratings L body =
          Inl (RuntimeError (str ''Missing expected keys in productRatings block: ''
                             @ join (str '', '') ?m))"
    using assms(1,2) by (simp add: extract_product_ratings_def)
  moreover have "set ?m = {key. key \<in> set REQUIRED_KEYS \<and> dict_get d key = None}" by auto
  ultimately show ?thesis using ne by blast
qed

theorem C5_missing_keys_witness:
  \<open>extract_product_ratings example_lib missing_keys_body =
     Inl (RuntimeError (str ''Missing expected keys in productRatings block: totalNumberOfRatings, ratingCounts''))\<close>
proof -
  let ?d = "[(str ''ratingAverage'', JFloat (float_of example_lib (str ''4.5'')))]"
  have h1: \<open>PATTERN_search missing_keys_body = Some (str ''{"ratingAverage":4.5}'')\<close>
    by (simp add: missing_keys_body_def search_eval)
  have h2: \<open>json_loads example_lib (str ''['' @ str ''{"ratingAverage":4.5}'' @ str '']'')
             = Inr (JArray (JObject ?d # []))\<close>
    by (simp add: loads_eval del: scan_once.simps parse_array.simps parse_object.simps)
  have h3: "\<exists>key. key \<in> set REQUIRED_KEYS \<and> dict_get ?d key = None"
    by (rule exI[of _ "str ''ratingCounts''"]) (simp add: REQUIRED_KEYS_def dict_get_def str_def)
  from C5_missing_keys[OF h1 h2 h3] obtain missing where
    e: "extract_product_ratings example_lib missing_keys_body =
             Inl (RuntimeError (str ''Missing expected keys in productRatings block: ''
                                @ join (str '', '') missing))"
    and m: "missing = filter (\<lambda>key. dict_get ?d key = None) REQUIRED_KEYS" by blast
  have "missing = [str ''totalNumberOfRatings'', str ''ratingCounts'']"
    unfolding m by (simp add: REQUIRED_KEYS_def dict_get_def str_def)
  with e show ?thesis by (simp add: str_def)
qed

text \<open>
  C6. Whenever the marker pattern does not match the body, extraction fails with the
  error "productRatings block not found in HTML response". That is so in particular
  for a body in which the marker text \<open>"contentType":"productRatings"\<close> does not occur
  at all, and for a body in which no productRatings marker is followed by
  \<open>"marker":null\<close>, which is every body whose productRatings blocks have a marker field
  that is not null.
\<close>

theorem C6_block_not_found:
  \<open>(PATTERN_search body = None \<longrightarrow> extract_product_ratings L body = Inl NOT_FOUND)
   \<and> (\<not> sublist (str ''"contentType":"productRatings"'') body \<longrightarrow>
        PATTERN_search body = None \<and> extract_product_ratings L body = Inl NOT_FOUND)
   \<and> (\<not> sublist (str ''"contentType":"productRatings","marker":null'') body \<longrightarrow>
        PATTERN_search body = None \<and> extract_product_ratings L body = Inl NOT_FOUND)\<close>
proof -
  have p1: \<open>prefix (str ''"contentType":"productRatings"'') PATTERN_literal\<close>
    by (simp add: PATTERN_literal_def str_def)
  have p2: \<open>prefix (str ''"contentType":"productRatings","marker":null'') PATTERN_literal\<close>
    by (simp add: PATTERN_literal_def str_def)
  show ?thesis
  proof (intro conjI impI)
    assume "PATTERN_search body = None"
    then show "extract_product_ratings L body = Inl NOT_FOUND" by (rule extract_not_found)
  next
    assume h: \<open>\<not> sublist (str ''"contentType":"productRatings"'') body\<close>
    show "PATTERN_search body = None" by (rule no_literal_no_match[OF p1 h])
    then show "extract_product_ratings L body = Inl NOT_FOUND" by (rule extract_not_found)
  next
    assume h: \<open>\<not> sublist (str ''"contentType":"productRatings","marker":null'') body\<close>
    show "PATTERN_search body = None" by (rule no_literal_no_match[OF p2 h])
    then show "extract_product_ratings L body = Inl NOT_FOUND" by (rule extract_not_found)
  qed
qed

theorem C6_block_not_found_witness:
  \<open>\<not> sublist (str ''"contentType":"productRatings","marker":null'') nonnull_marker_body
   \<and> PATTERN_search nonnull_marker_body = None
   \<and> extract_product_ratings example_lib nonnull_marker_body = Inl NOT_FOUND\<close>
proof -
  have h: \<open>\<not> sublist (str ''"contentType":"productRatings","marker":null'') nonnull_marker_body\<close>
    by (simp add: nonnull_marker_body_def str_def sublist_Cons_right)
  have "PATTERN_search nonnull_marker_body = None
        \<and> extract_product_ratings example_lib nonnull_marker_body = Inl NOT_FOUND"
    by (rule C6_block_not_found[of nonnull_marker_body example_lib,
          THEN conjunct2, THEN conjunct2, THEN mp, OF h])
  with h show ?thesis by (intro conjI) (erule conjunct1 conjunct2 | assumption)+
qed

text \<open>
  C7 (as amended). For every HTTP response with a status code from 400 to 599 the fetch
  fails with the error "App Store page returned HTTP " followed by the decimal status
  code; the run writes nothing to standard output, the line \<open>error: \<close> followed by that
  text to standard error, and ends with status 1. For 404 the text of the code is
  \<open>404\<close>.
\<close>

theorem C7_http_error_status:
  assumes "net (product_url (app_id a) (country a)) = Response code body"
    and "400 \<le> code" and "code < 600"
  shows "fetch_product_ratings L net (app_id a) (country a) =
           Inl (RuntimeError (str ''App Store page returned HTTP '' @ int_repr code))
         \<and> main L net (Namespace a) =
             \<lparr>stdout = [],
              stderr = str ''error: App Store page returned HTTP '' @ int_repr code @ [10],
              exit_status = 1\<rparr>
         \<and> int_repr 404 = str ''404''"
proof -
  have "raises_for_status code" using assms(2,3) by (simp add: raises_for_status_def)
  then have f: "fetch_product_ratings L net (app_id a) (country a) =
           Inl (RuntimeError (str ''App Store page returned HTTP '' @ int_repr code))"
    using assms(1) by (simp add: fetch_product_ratings_def)
  then have "main L net (Namespace a) =
             \<lparr>stdout = [],
              stderr = str ''error: App Store page returned HTTP '' @ int_repr code @ [10],
              exit_status = 1\<rparr>"
    by (simp add: main_def str_def)
  moreover have "int_repr 404 = str ''404''" by (simp add: int_repr_def digits.simps str_def)
  ultimately show ?thesis using f by simp
qed

theorem C7_http_error_status_witness:
  "main example_lib (serve 404 example_block) (example_args False) =
     \<lparr>stdout = [], stderr = str ''error: App Store page returned HTTP 404'' @ [10],
      exit_status = 1\<rparr>"
proof -
  let ?a = "\<lparr>app_id = str ''1234567890'', country = str ''ua'', pretty = False\<rparr>"
  have h1: "serve 404 example_block (product_url (app_id ?a) (country ?a)) = Response 404 example_block"
    by (simp add: serve_def)
  from C7_http_error_status[where net = "serve 404 example_block" and a = ?a and L = example_lib, OF h1]
  have "main example_lib (serve 404 example_block) (Namespace ?a) =
             \<lparr>stdout = [],
              stderr = str ''error: App Store page returned HTTP '' @ int_repr 404 @ [10],
              exit_status = 1\<rparr>" and "int_repr 404 = str ''404''" by simp_all
  then show ?thesis by (simp add: example_args_def str_def)
qed

text \<open>
  C7 as it is stated, for every status that is not 2xx, fails on a status below 400:
  \<open>raise_for_status\<close> accepts a 304 response, its body is searched, and the run
  succeeds.
\<close>

theorem C7_status_304_counterexample:
  \<open>main example_lib (serve 304 example_block) (example_args False) =
     \<lparr>stdout = str ''{"ratingAverage": 4.5, "totalNumberOfRatings": 120, "ratingCounts": [80, 20, 10, 5, 5]}'',
      stderr = [], exit_status = 0\<rparr>\<close>
proof -
  have "\<not> raises_for_status 304" by (simp add: raises_for_status_def)
  then have "main example_lib (serve 304 example_block) (example_args False)
      = \<lparr>stdout = example_output, stderr = [], exit_status = 0\<rparr>"
    by (rule run_served_example)
  then show ?thesis by (simp only: example_output_def)
qed

text \<open>
  C8 (as amended). For every invocation whose command line \<open>argparse\<close> accepts, and
  given that the texts of the library's exceptions (of a failed request, of a failed
  decoding) are single lines: when the fetch or the extraction fails, the run writes
  nothing to standard output, exactly the one line \<open>error: \<close> followed by the text of
  the exception to standard error, and ends with status 1. The run ends with status 0
  only when the fetch and the extraction have succeeded, and then standard output holds
  the JSON record and standard error is empty; it does end with status 0 whenever they
  succeed and standard output can encode the record.
\<close>

theorem C8_exit_status_and_streams:
  assumes "\<forall>t. net (product_url (app_id a) (country a)) = RequestException t \<longrightarrow> 10 \<notin> set t"
    and "\<forall>s. 10 \<notin> set (decode_error_str L s)"
  shows "(\<forall>exc. fetch_product_ratings L net (app_id a) (country a) = Inl exc \<longrightarrow>
            10 \<notin> set (exc_str exc)
            \<and> main L net (Namespace a) =
                \<lparr>stdout = [], stderr = str ''error: '' @ exc_str exc @ [10], exit_status = 1\<rparr>)
         \<and> (exit_status (main L net (Namespace a)) = 0 \<longrightarrow>
              (\<exists>summary. fetch_product_ratings L net (app_id a) (country a) = Inr summary
                 \<and> main L net (Namespace a) =
                     \<lparr>stdout = json_dumps L (if pretty a then Some 2 else None) (JObject summary)
                               @ (if pretty a then [10] else []),
                      stderr = [], exit_status = 0\<rparr>))
         \<and> (\<forall>summary. fetch_product_ratings L net (app_id a) (country a) = Inr summary
               \<and> encodes L (json_dumps L (if pretty a then Some 2 else None) (JObject summary))
             \<longrightarrow> exit_status (main L net (Namespace a)) = 0)"
proof (intro conjI allI impI)
  fix exc assume f: "fetch_product_ratings L net (app_id a) (country a) = Inl exc"
  show "10 \<notin> set (exc_str exc)"
    by (rule fetch_single_line[where net = net and L = L, OF assms f])
  show "main L net (Namespace a) =
      \<lparr>stdout = [], stderr = str ''error: '' @ exc_str exc @ [10], exit_status = 1\<rparr>"
    by (rule main_failure[OF f])
next
  assume "exit_status (main L net (Namespace a)) = 0"
  from exit_status_0[OF this]
  show "\<exists>summary. fetch_product_ratings L net (app_id a) (country a) = Inr summary
                 \<and> main L net (Namespace a) =
                     \<lparr>stdout = json_dumps L (if pretty a then Some 2 else None) (JObject summary)
                               @ (if pretty a then [10] else []),
                      stderr = [], exit_status = 0\<rparr>"
    by blast
next
  fix summary
  assume h: "fetch_product_ratings L net (app_id a) (country a) = Inr summary
               \<and> encodes L (json_dumps L (if pretty a then Some 2 else None) (JObject summary))"
  then have f: "fetch_product_ratings L net (app_id a) (country a) = Inr summary" by (rule conjunct1)
  show "exit_status (main L net (Namespace a)) = 0"
    unfolding main_summary[OF f] using h by simp
qed

theorem C8_exit_status_and_streams_witness:
  "fetch_product_ratings example_lib (serve 200 nonnull_marker_body) (str ''1234567890'') (str ''ua'') = Inl NOT_FOUND
   \<and> main example_lib (serve 200 nonnull_marker_body) (example_args True) =
       \<lparr>stdout = [],
        stderr = str ''error: productRatings block not found in HTML response'' @ [10],
        exit_status = 1\<rparr>"
proof -
  let ?a = "\<lparr>app_id = str ''1234567890'', country = str ''ua'', pretty = True\<rparr>"
  let ?net = "serve 200 nonnull_marker_body"
  have h1: "\<forall>t. ?net (product_url (app_id ?a) (country ?a)) = RequestException t \<longrightarrow> 10 \<notin> set t"
    by (simp add: serve_def)
  have h2: "\<forall>s. 10 \<notin> set (decode_error_str example_lib s)"
    by (simp add: example_lib_def str_def)
  have nf: \<open>\<not> sublist (str ''"contentType":"productRatings","marker":null'') nonnull_marker_body\<close>
    by (simp add: nonnull_marker_body_def str_def sublist_Cons_right)
  have p: \<open>prefix (str ''"contentType":"productRatings","marker":null'') PATTERN_literal\<close>
    by (simp add: PATTERN_literal_def str_def)
  have f: "fetch_product_ratings example_lib ?net (app_id ?a) (country ?a) = Inl NOT_FOUND"
    using extract_not_found[OF no_literal_no_match[OF p nf], of example_lib]
    by (simp add: fetch_product_ratings_def serve_def raises_for_status_def)
  have "main example_lib ?net (Namespace ?a) =
          \<lparr>stdout = [], stderr = str ''error: '' @ exc_str NOT_FOUND @ [10], exit_status = 1\<rparr>"
    by (rule C8_exit_status_and_streams[where net = ?net and a = ?a and L = example_lib, OF h1 h2,
          THEN conjunct1, THEN spec, THEN mp, OF f, THEN conjunct2])
  then show ?thesis using f by (simp add: example_args_def NOT_FOUND_def str_def)
qed

text \<open>
  C8 as it is stated, for every invocation, fails on a command line that \<open>argparse\<close>
  refuses: \<open>parse_args\<close> is called outside the \<open>try\<close> of \<open>main\<close>, the process ends with
  status 2, and standard error holds the usage line and a line that does not start with
  \<open>error: \<close>.
\<close>

theorem C8_usage_error_counterexample:
  "main example_lib (serve 200 example_block) (UsageError usage_error_text) =
     \<lparr>stdout = [], stderr = usage_error_text, exit_status = 2\<rparr>
   \<and> \<not> prefix (str ''error: '') usage_error_text
   \<and> length (filter (\<lambda>c. c = 10) usage_error_text) = 2"
  by (simp add: main_def usage_error_text_def str_def)

text \<open>
  C9. The \<open>print\<close> of the record is outside the \<open>try\<close> of \<open>main\<close>. On a body whose
  block has the string \<open>"\ud800"\<close> for \<open>ratingAverage\<close> extraction succeeds, and with a
  standard output in UTF-8 the \<open>write\<close> of the record raises \<open>UnicodeEncodeError\<close>,
  with \<open>--pretty\<close> and without it: standard output stays empty, so that neither output
  decodes to the data and the pretty output does not end with a line break; standard
  error holds the traceback, and the run ends with status 1.
\<close>

theorem C9_surrogate_not_written:
  \<open>surrogate_body = str ''"contentType":"productRatings","marker":null,"items":[{"ratingAverage":"'' @ [92] @ str ''ud800","totalNumberOfRatings":120,"ratingCounts":[80,20,10,5,5]}]''
   \<and> extract_product_ratings example_lib surrogate_body =
       Inr [(str ''ratingAverage'', JString [0xD800]), (str ''totalNumberOfRatings'', JInt 120),
            (str ''ratingCounts'', JArray [JInt 80, JInt 20, JInt 10, JInt 5, JInt 5])]
   \<and> stdout (main example_lib (serve 200 surrogate_body) (example_args True)) = []
   \<and> exit_status (main example_lib (serve 200 surrogate_body) (example_args True)) = 1
   \<and> prefix (str ''Traceback (most recent call last):'')
        (stderr (main example_lib (serve 200 surrogate_body) (example_args True)))
   \<and> stdout (main example_lib (serve 200 surrogate_body) (example_args False)) = []
   \<and> exit_status (main example_lib (serve 200 surrogate_body) (example_args False)) = 1
   \<and> prefix (str ''Traceback (most recent call last):'')
        (stderr (main example_lib (serve 200 surrogate_body) (example_args False)))\<close>
proof (intro conjI)
  show \<open>surrogate_body = str ''"contentType":"productRatings","marker":null,"items":[{"ratingAverage":"'' @ [92] @ str ''ud800","totalNumberOfRatings":120,"ratingCounts":[80,20,10,5,5]}]''\<close>
    by (simp only: surrogate_body_def)
  show "extract_product_ratings example_lib surrogate_body =
       Inr [(str ''ratingAverage'', JString [0xD800]), (str ''totalNumberOfRatings'', JInt 120),
            (str ''ratingCounts'', JArray [JInt 80, JInt 20, JInt 10, JInt 5, JInt 5])]"
    using extract_surrogate by (simp only: surrogate_summary_def)
qed (simp_all add: run_surrogate)

text \<open>
  C10. The search returns the match at the earliest position at which the pattern
  matches, whatever matches follow it; and when the decoded array of the captured text
  has several elements, the record that is validated and returned is its first element.
\<close>

theorem C10_earliest_match_first_object:
  "(match_at (drop i body) = Some g \<and> (\<forall>j<i. match_at (drop j body) = None)
      \<longrightarrow> PATTERN_search body = Some g)
   \<and> (PATTERN_search body = Some block
        \<and> json_loads L (str ''['' @ block @ str '']'') = Inr (JArray (v # vs))
      \<longrightarrow> extract_product_ratings L body = validate v)"
proof (intro conjI impI)
  assume "match_at (drop i body) = Some g \<and> (\<forall>j<i. match_at (drop j body) = None)"
  then show "PATTERN_search body = Some g" using search_earliest by blast
next
  assume "PATTERN_search body = Some block
        \<and> json_loads L (str ''['' @ block @ str '']'') = Inr (JArray (v # vs))"
  then show "extract_product_ratings L body = validate v"
    by (simp add: extract_product_ratings_def)
qed

theorem C10_earliest_match_first_object_witness:
  \<open>PATTERN_search two_blocks_body =
     Some (str ''{"ratingAverage":1.5,"totalNumberOfRatings":2,"ratingCounts":[0,0,0,1,1],"id":7},{"ratingAverage":9}'')
   \<and> extract_product_ratings example_lib two_blocks_body =
       Inr [(str ''ratingAverage'', JFloat (str ''1.5'')), (str ''totalNumberOfRatings'', JInt 2),
            (str ''ratingCounts'', JArray [JInt 0, JInt 0, JInt 0, JInt 1, JInt 1]),
            (str ''id'', JInt 7)]\<close>
proof -
  let ?g = \<open>str ''{"ratingAverage":1.5,"totalNumberOfRatings":2,"ratingCounts":[0,0,0,1,1],"id":7},{"ratingAverage":9}''\<close>
  let ?v = "JObject [(str ''ratingAverage'', JFloat (str ''1.5'')), (str ''totalNumberOfRatings'', JInt 2),
            (str ''ratingCounts'', JArray [JInt 0, JInt 0, JInt 0, JInt 1, JInt 1]),
            (str ''id'', JInt 7)]"
  have m: "match_at (drop 3 two_blocks_body) = Some ?g"
    by (simp add: two_blocks_body_def search_eval)
  have n: "\<forall>j<3. match_at (drop j two_blocks_body) = None"
  proof (intro allI impI)
    fix j :: nat assume "j < 3"
    then have "j = 0 \<or> j = 1 \<or> j = 2" by arith
    then show "match_at (drop j two_blocks_body) = None"
      by (elim disjE) (simp_all add: two_blocks_body_def search_eval)
  qed
  have s: "PATTERN_search two_blocks_body = Some ?g"
    using C10_earliest_match_first_object[of 3 two_blocks_body ?g, THEN conjunct1] m n by blast
  have l: "json_loads example_lib (str ''['' @ ?g @ str '']'')
             = Inr (JArray (?v # [JObject [(str ''ratingAverage'', JInt 9)]]))"
    by (simp add: loads_eval example_lib_def del: scan_once.simps parse_array.simps parse_object.simps)
  have "extract_product_ratings example_lib two_blocks_body = validate ?v"
    using C10_earliest_match_first_object[of _ two_blocks_body _ ?g example_lib ?v, THEN conjunct2] s l
    by blast
  moreover have "validate ?v = Inr [(str ''ratingAverage'', JFloat (str ''1.5'')), (str ''totalNumberOfRatings'', JInt 2),
            (str ''ratingCounts'', JArray [JInt 0, JInt 0, JInt 0, JInt 1, JInt 1]),
            (str ''id'', JInt 7)]"
    by (simp add: validate_def REQUIRED_KEYS_def dict_get_def str_def)
  ultimately show ?thesis using s by simp
qed

end
